theory Spec2Isabelle
  imports Complex_Main "HOL-Library.AList"
begin

section \<open>Distance vector routing: the data model\<close>

text \<open>
  The development embeds \<^verbatim>\<open>distance_vector_routing.py\<close>.

  A Python \<^verbatim>\<open>dict\<close> keeps its keys in insertion order, and the simulation iterates
  over dictionaries (\<^verbatim>\<open>routers.values()\<close>, \<^verbatim>\<open>router.neighbors\<close>,
  \<^verbatim>\<open>neighbor_table.items()\<close>), so every dictionary is an association list:
  \<^const>\<open>map_of\<close> reads a key, and \<^const>\<open>AList.update\<close> is the assignment
  \<^verbatim>\<open>d[k] = v\<close> (an existing key keeps its position, a new key goes to the end).
  A cost is a finite Python number, an \<^verbatim>\<open>int\<close> or a \<^verbatim>\<open>float\<close>, and is
  identified with the real number it denotes; Python compares two numbers by these
  values. The sum that Python's \<^verbatim>\<open>+\<close> returns for two costs is not their exact sum
  in general: the sum of two ints is exact, a sum with a float is rounded to a float, and
  the route of a router to itself has the float cost \<^verbatim>\<open>0.0\<close>. The addition of line 68
  is therefore the parameter \<open>padd\<close> of every function that reaches it, a function
  of the values of the two operands. Python's result is such a function as long as the
  ints of a run stay within \<open>2 ^ 53\<close> in magnitude (they convert to floats without
  loss), and in the run on \<open>big_link_network\<close> below. Exact addition is the instance
  \<open>(+)\<close>; it is what Python computes as long as the costs and their sums are integers
  within \<open>2 ^ 53\<close>, as in \<^verbatim>\<open>main\<close>.

  A missing dictionary key raises \<^verbatim>\<open>KeyError\<close>. \<^verbatim>\<open>simulate\<close> first draws the
  network (\<^verbatim>\<open>visualize_network\<close>), with positions that are given for the nodes A to F
  only, and \<^verbatim>\<open>draw_networkx_nodes\<close> raises \<^verbatim>\<open>NetworkXError\<close> for a node without
  a position. The nodes of \<^verbatim>\<open>self.graph\<close> are the keys of \<^verbatim>\<open>self.routers\<close>
  (\<^verbatim>\<open>add_router\<close> adds both, \<^verbatim>\<open>add_link\<close> adds an edge only after it has found
  both routers), so the field \<^verbatim>\<open>graph\<close> is not modelled apart from that. The
  picture itself and the pause between rounds are not part of the model, and what has
  been printed before an exception is not kept with the exception. What
  \<^verbatim>\<open>print\<close> writes is a list of values of type \<open>event\<close>; the event of a
  displayed table carries the table, not its formatted lines.
\<close>

datatype error = KeyError | NetworkXError

type_synonym table = "(string \<times> (real \<times> string)) list"

record router =
  name :: string
  neighbors :: "(string \<times> real) list"
  routing_table :: table

record network =
  routers :: "(string \<times> router) list"

datatype event =
    Link_costs_listing
  | Start_banner
  | Iteration_header int
  | Table_display string table
  | Converged_message
  | Max_iterations_warning

subsection \<open>Router\<close>

definition Router_init :: "string \<Rightarrow> router" where
  "Router_init n = \<lparr>name = n, neighbors = [], routing_table = []\<rparr>"

definition add_neighbor :: "router \<Rightarrow> string \<Rightarrow> real \<Rightarrow> router" where
  "add_neighbor r neighbor_name cost =
     r\<lparr>neighbors := AList.update neighbor_name cost (neighbors r),
       routing_table :=
         AList.update (name r) (0, name r)
           (AList.update neighbor_name (cost, neighbor_name) (routing_table r))\<rparr>"

text \<open>
  The test of line 71: \<^verbatim>\<open>dest not in self.routing_table or
  new_cost < self.routing_table[dest][0]\<close>.
\<close>

definition improves :: "table \<Rightarrow> string \<Rightarrow> real \<Rightarrow> bool" where
  "improves t dest new_cost =
     (case map_of t dest of None \<Rightarrow> True | Some (old_cost, _) \<Rightarrow> new_cost < old_cost)"

text \<open>
  The \<^verbatim>\<open>for\<close> loop of \<^verbatim>\<open>update_routing_table\<close> over the items of the
  neighbour's table; the state is the router's own table and the flag \<^verbatim>\<open>modified\<close>.
  \<open>padd\<close> is the \<^verbatim>\<open>+\<close> of line 68.
  The caller passes a deep copy of the neighbour's table, so the table that is read
  never changes during the loop, also when a router is its own neighbour.
\<close>

fun relax_loop ::
  "(real \<Rightarrow> real \<Rightarrow> real) \<Rightarrow> string \<Rightarrow> real \<Rightarrow> table \<Rightarrow> table \<times> bool \<Rightarrow> table \<times> bool" where
  "relax_loop padd neighbor_name cost_to_neighbor [] (t, modified) = (t, modified)"
| "relax_loop padd neighbor_name cost_to_neighbor ((dest, (dest_cost, hop)) # rest) (t, modified) =
     (let new_cost = padd cost_to_neighbor dest_cost in
      if improves t dest new_cost
      then relax_loop padd neighbor_name cost_to_neighbor rest
             (AList.update dest (new_cost, neighbor_name) t, True)
      else relax_loop padd neighbor_name cost_to_neighbor rest (t, modified))"

definition update_routing_table :: "(real \<Rightarrow> real \<Rightarrow> real) \<Rightarrow> router \<Rightarrow> string \<Rightarrow> table \<Rightarrow> error + (router \<times> bool)" where
  "update_routing_table padd r neighbor_name neighbor_table =
     (case map_of (neighbors r) neighbor_name of
        None \<Rightarrow> Inl KeyError
      | Some cost_to_neighbor \<Rightarrow>
          (case relax_loop padd neighbor_name cost_to_neighbor neighbor_table (routing_table r, False) of
             (t, modified) \<Rightarrow> Inr (r\<lparr>routing_table := t\<rparr>, modified)))"

subsection \<open>Network\<close>

definition Network_init :: network where
  "Network_init = \<lparr>routers = []\<rparr>"

definition add_router :: "string \<Rightarrow> network \<Rightarrow> network" where
  "add_router n net = net\<lparr>routers := AList.update n (Router_init n) (routers net)\<rparr>"

text \<open>
  \<^verbatim>\<open>add_link\<close> mutates the first router before it looks the second one up, so an
  exception carries the state it leaves behind.
\<close>

definition add_link ::
  "string \<Rightarrow> string \<Rightarrow> real \<Rightarrow> network \<Rightarrow> (error \<times> network) + network" where
  "add_link router1 router2 cost net =
     (case map_of (routers net) router1 of
        None \<Rightarrow> Inl (KeyError, net)
      | Some r1 \<Rightarrow>
          (let net1 = net\<lparr>routers := AList.update router1 (add_neighbor r1 router2 cost) (routers net)\<rparr>
           in case map_of (routers net1) router2 of
                None \<Rightarrow> Inl (KeyError, net1)
              | Some r2 \<Rightarrow>
                  Inr (net1\<lparr>routers :=
                         AList.update router2 (add_neighbor r2 router1 cost) (routers net1)\<rparr>)))"

text \<open>
  One round of \<^verbatim>\<open>simulate\<close> (lines 168 to 176). A router object is identified by its
  key in \<^verbatim>\<open>self.routers\<close>. \<open>simulate_pair\<close> is the body of the inner loop (lines 173
  to 176): it reads the neighbour's table as it is when the pair is processed and relaxes
  the router's own table. The keys the loops enumerate are keys of \<^verbatim>\<open>self.routers\<close>,
  so only the lookup of a neighbour can raise. An exception inside a round is returned
  without the state, which no property below observes.
\<close>

definition simulate_pair :: "(real \<Rightarrow> real \<Rightarrow> real) \<Rightarrow> string \<Rightarrow> string \<Rightarrow> network \<Rightarrow> error + (network \<times> bool)" where
  "simulate_pair padd rk neighbor net =
     (case map_of (routers net) neighbor of
        None \<Rightarrow> Inl KeyError
      | Some n \<Rightarrow>
          (case map_of (routers net) rk of
             None \<Rightarrow> Inl KeyError
           | Some r \<Rightarrow>
               (case update_routing_table padd r neighbor (routing_table n) of
                  Inl e \<Rightarrow> Inl e
                | Inr (r', modified) \<Rightarrow>
                    Inr (net\<lparr>routers := AList.update rk r' (routers net)\<rparr>, modified))))"

fun simulate_neighbors ::
  "(real \<Rightarrow> real \<Rightarrow> real) \<Rightarrow> string \<Rightarrow> string list \<Rightarrow> network \<Rightarrow> bool \<Rightarrow> error + (network \<times> bool)" where
  "simulate_neighbors padd rk [] net changes = Inr (net, changes)"
| "simulate_neighbors padd rk (neighbor # rest) net changes =
     (case simulate_pair padd rk neighbor net of
        Inl e \<Rightarrow> Inl e
      | Inr (net', modified) \<Rightarrow> simulate_neighbors padd rk rest net' (changes \<or> modified))"

fun simulate_routers ::
  "(real \<Rightarrow> real \<Rightarrow> real) \<Rightarrow> string list \<Rightarrow> network \<Rightarrow> bool \<Rightarrow> error + (network \<times> bool)" where
  "simulate_routers padd [] net changes = Inr (net, changes)"
| "simulate_routers padd (rk # rest) net changes =
     (case map_of (routers net) rk of
        None \<Rightarrow> Inl KeyError
      | Some r \<Rightarrow>
          (case simulate_neighbors padd rk (map fst (neighbors r)) net changes of
             Inl e \<Rightarrow> Inl e
           | Inr (net', changes') \<Rightarrow> simulate_routers padd rest net' changes'))"

definition simulate_round :: "(real \<Rightarrow> real \<Rightarrow> real) \<Rightarrow> network \<Rightarrow> error + (network \<times> bool)" where
  "simulate_round padd net = simulate_routers padd (map fst (routers net)) net False"

definition display_tables :: "network \<Rightarrow> event list" where
  "display_tables net = map (\<lambda>(k, r). Table_display (name r) (routing_table r)) (routers net)"

text \<open>
  The \<^verbatim>\<open>while\<close> loop of \<^verbatim>\<open>simulate\<close>, with its local variables
  \<^verbatim>\<open>iteration\<close> and \<^verbatim>\<open>converged\<close>.
\<close>

function simulate_loop ::
  "(real \<Rightarrow> real \<Rightarrow> real) \<Rightarrow> int \<Rightarrow> int \<Rightarrow> bool \<Rightarrow> network \<Rightarrow> event list
     \<Rightarrow> error + (int \<times> bool \<times> network \<times> event list)" where
  "simulate_loop padd max_iterations iteration converged net out =
     (if \<not> converged \<and> iteration < max_iterations
      then (case simulate_round padd net of
              Inl e \<Rightarrow> Inl e
            | Inr (net', changes) \<Rightarrow>
                simulate_loop padd max_iterations (iteration + 1) (\<not> changes) net'
                  (out @ [Iteration_header (iteration + 1)] @ display_tables net'
                       @ (if changes then [] else [Converged_message])))
      else Inr (iteration, converged, net, out))"
  by pat_completeness auto
termination
  by (relation "measure (\<lambda>(padd, m, i, c, n, out). nat (m - i))") auto

declare simulate_loop.simps [simp del]

text \<open>
  \<^verbatim>\<open>visualize_network\<close> (lines 115 to 143): the positions \<^verbatim>\<open>pos\<close> are given for
  A to F, and the first drawing call raises for any other node.
\<close>

definition pos_nodes :: "string list" where
  "pos_nodes = [''A'', ''B'', ''C'', ''D'', ''E'', ''F'']"

definition positioned :: "network \<Rightarrow> bool" where
  "positioned net \<longleftrightarrow> (\<forall>k \<in> set (map fst (routers net)). k \<in> set pos_nodes)"

definition visualize_network :: "network \<Rightarrow> error + unit" where
  "visualize_network net = (if positioned net then Inr () else Inl NetworkXError)"

text \<open>
  \<^verbatim>\<open>simulate\<close> prints its banner, draws the network and runs the loop. It has no
  \<^verbatim>\<open>return\<close> statement: its value is \<^verbatim>\<open>None\<close>, the first component below; the
  other two are the network it leaves and what it printed.
\<close>

definition simulate :: "(real \<Rightarrow> real \<Rightarrow> real) \<Rightarrow> int \<Rightarrow> network \<Rightarrow> error + (unit \<times> network \<times> event list)" where
  "simulate padd max_iterations net =
     (case visualize_network net of
        Inl e \<Rightarrow> Inl e
      | Inr u \<Rightarrow>
          (case simulate_loop padd max_iterations 0 False net [Start_banner] of
             Inl e \<Rightarrow> Inl e
           | Inr (iteration, converged, net', out) \<Rightarrow>
               Inr ((), net', if converged then out else out @ [Max_iterations_warning])))"

subsection \<open>The example network of \<^verbatim>\<open>main\<close>\<close>

fun add_links ::
  "(string \<times> string \<times> real) list \<Rightarrow> network \<Rightarrow> (error \<times> network) + network" where
  "add_links [] net = Inr net"
| "add_links ((a, b, c) # ls) net =
     (case add_link a b c net of Inl e \<Rightarrow> Inl e | Inr net' \<Rightarrow> add_links ls net')"

definition main_routers :: "string list" where
  "main_routers = [''A'', ''B'', ''C'', ''D'', ''E'', ''F'']"

definition main_links :: "(string \<times> string \<times> real) list" where
  "main_links =
     [(''A'', ''B'', 1), (''A'', ''F'', 3), (''B'', ''C'', 3), (''B'', ''F'', 1),
      (''B'', ''E'', 5), (''C'', ''D'', 2), (''D'', ''E'', 1), (''E'', ''F'', 2),
      (''D'', ''F'', 6)]"

definition main_network :: "(error \<times> network) + network" where
  "main_network = add_links main_links (foldl (\<lambda>net n. add_router n net) Network_init main_routers)"

text \<open>
  \<^verbatim>\<open>main\<close> prints the list of link costs and calls \<^verbatim>\<open>simulate\<close> with the default
  cap of 100 rounds; like \<^verbatim>\<open>simulate\<close> it returns \<^verbatim>\<open>None\<close>.
\<close>

definition main :: "(real \<Rightarrow> real \<Rightarrow> real) \<Rightarrow> error + (unit \<times> network \<times> event list)" where
  "main padd = (case main_network of
             Inl (e, net) \<Rightarrow> Inl e
           | Inr net \<Rightarrow>
               (case simulate padd 100 net of
                  Inl e \<Rightarrow> Inl e
                | Inr (value, net', out) \<Rightarrow> Inr ((), net', Link_costs_listing # out)))"

section \<open>Properties\<close>

definition never_worse :: "table \<Rightarrow> table \<Rightarrow> bool" where
  "never_worse t t' =
     (\<forall>d c h. map_of t d = Some (c, h) \<longrightarrow> (\<exists>c' h'. map_of t' d = Some (c', h') \<and> c' \<le> c))"

text \<open>
  Between two states of one run a router keeps its key, its name and its neighbours, and
  its table is never worse.
\<close>

definition evolves :: "network \<Rightarrow> network \<Rightarrow> bool" where
  "evolves net net' \<longleftrightarrow>
     map fst (routers net') = map fst (routers net) \<and>
     (\<forall>k r. map_of (routers net) k = Some r \<longrightarrow>
        (\<exists>r'. map_of (routers net') k = Some r' \<and> name r' = name r
              \<and> neighbors r' = neighbors r
              \<and> never_worse (routing_table r) (routing_table r')))"

subsection \<open>Concrete networks\<close>

text \<open>The network \<^verbatim>\<open>main\<close> hands to \<^verbatim>\<open>simulate\<close>, and the one it leaves.\<close>

definition start_network :: network where
  "start_network = (case main_network of Inr net \<Rightarrow> net | Inl (e, net) \<Rightarrow> net)"

definition converged_network :: network where
  "converged_network = (case main (+) of Inr (u, net, out) \<Rightarrow> net | Inl e \<Rightarrow> start_network)"

definition router_A :: router where
  "router_A = \<lparr>name = ''A'', neighbors = [(''B'', 1), (''F'', 3)],
               routing_table = [(''B'', 1, ''B''), (''A'', 0, ''A''), (''F'', 3, ''F'')]\<rparr>"


definition round_1_network :: network where
  "round_1_network =
     (case simulate_round (+) start_network of
        Inr (net, changes) \<Rightarrow> net
      | Inl e \<Rightarrow> start_network)"

text \<open>The route a router records for a destination, if both exist.\<close>

definition route :: "network \<Rightarrow> string \<Rightarrow> string \<Rightarrow> (real \<times> string) option" where
  "route net k dest =
     (case map_of (routers net) k of None \<Rightarrow> None | Some r \<Rightarrow> map_of (routing_table r) dest)"

text \<open>A chain of four routers, added in the order A, B, C, D, with three links of cost 1.\<close>

definition chain_network :: network where
  "chain_network =
     (case add_links [(''A'', ''B'', 1), (''B'', ''C'', 1), (''C'', ''D'', 1)]
             (foldl (\<lambda>net n. add_router n net) Network_init [''A'', ''B'', ''C'', ''D'']) of
        Inr net \<Rightarrow> net
      | Inl (e, net) \<Rightarrow> net)"

subsection \<open>The topology\<close>

text \<open>
  The cost of the link from \<open>u\<close> to \<open>v\<close> as router \<open>u\<close> records it,
  \<^verbatim>\<open>routers[u].neighbors[v]\<close>, and the symmetry of these records.
\<close>

definition link_cost :: "network \<Rightarrow> string \<Rightarrow> string \<Rightarrow> real option" where
  "link_cost net u v =
     (case map_of (routers net) u of None \<Rightarrow> None | Some r \<Rightarrow> map_of (neighbors r) v)"

definition symmetric :: "network \<Rightarrow> bool" where
  "symmetric net \<longleftrightarrow> (\<forall>u v. link_cost net u v = link_cost net v u)"

definition routers_AB :: network where
  "routers_AB = add_router ''B'' (add_router ''A'' Network_init)"

subsection \<open>Runs\<close>



subsection \<open>Shortest walks\<close>

text \<open>
  The reference for the converged tables. A walk is the list of the routers it visits;
  its cost is the sum of the costs of its links, and it has a cost only if each step is a
  link. \<open>lc u v\<close> is the cost of the link from \<open>u\<close> to \<open>v\<close>. A shortest walk from
  \<open>s\<close> to \<open>d\<close> is a walk whose cost no walk from \<open>s\<close> to \<open>d\<close> undercuts: the cost a
  single-source shortest-path algorithm run from \<open>s\<close> assigns to \<open>d\<close>.
\<close>

fun walk_cost :: "(string \<Rightarrow> string \<Rightarrow> real option) \<Rightarrow> string list \<Rightarrow> real option" where
  "walk_cost lc [] = None"
| "walk_cost lc [v] = Some 0"
| "walk_cost lc (u # v # p) =
     (case lc u v of
        None \<Rightarrow> None
      | Some c \<Rightarrow> (case walk_cost lc (v # p) of None \<Rightarrow> None | Some c' \<Rightarrow> Some (c + c')))"

definition is_walk ::
  "(string \<Rightarrow> string \<Rightarrow> real option) \<Rightarrow> string \<Rightarrow> string \<Rightarrow> string list \<Rightarrow> real \<Rightarrow> bool" where
  "is_walk lc s d p c \<longleftrightarrow> p \<noteq> [] \<and> hd p = s \<and> last p = d \<and> walk_cost lc p = Some c"

definition shortest_walk ::
  "(string \<Rightarrow> string \<Rightarrow> real option) \<Rightarrow> string \<Rightarrow> string \<Rightarrow> string list \<Rightarrow> real \<Rightarrow> bool" where
  "shortest_walk lc s d p c \<longleftrightarrow>
     is_walk lc s d p c \<and> (\<forall>p' c'. is_walk lc s d p' c' \<longrightarrow> c \<le> c')"

text \<open>
  The undirected topology: \<open>u\<close> and \<open>v\<close> are linked when either of them records the
  other as a neighbour.
\<close>

definition union_link_cost :: "network \<Rightarrow> string \<Rightarrow> string \<Rightarrow> real option" where
  "union_link_cost net u v =
     (case link_cost net u v of Some c \<Rightarrow> Some c | None \<Rightarrow> link_cost net v u)"

text \<open>
  The networks a driver can build before it starts the simulation: from the empty
  network by \<^verbatim>\<open>add_router\<close> and by \<^verbatim>\<open>add_link\<close> with a cost that is not negative,
  whether the call returns or raises.
\<close>

inductive built :: "network \<Rightarrow> bool" where
  built_init: "built Network_init"
| built_router: "built net \<Longrightarrow> built (add_router n net)"
| built_link: "built net \<Longrightarrow> 0 \<le> c \<Longrightarrow> add_link u v c net = Inr net' \<Longrightarrow> built net'"
| built_link_raised: "built net \<Longrightarrow> 0 \<le> c \<Longrightarrow> add_link u v c net = Inl (e, net') \<Longrightarrow> built net'"

text \<open>
  The state of the tables before the first round: a router with a neighbour knows
  itself at cost 0, and every other route is a direct link.
\<close>

definition initial_router :: "string \<Rightarrow> router \<Rightarrow> bool" where
  "initial_router k r \<longleftrightarrow>
        name r = k
      \<and> distinct (map fst (routing_table r))
      \<and> (\<forall>v w. map_of (neighbors r) v = Some w \<longrightarrow> 0 \<le> w)
      \<and> (neighbors r \<noteq> [] \<longrightarrow> map_of (routing_table r) k = Some (0, k))
      \<and> (\<forall>d c h. map_of (routing_table r) d = Some (c, h) \<longrightarrow>
            (d = k \<and> c = 0 \<and> h = k) \<or> (h = d \<and> map_of (neighbors r) d = Some c))
      \<and> (\<forall>v w. map_of (neighbors r) v = Some w \<longrightarrow>
            (\<exists>c h. map_of (routing_table r) v = Some (c, h) \<and> c \<le> w))"

definition initial :: "network \<Rightarrow> bool" where
  "initial net \<longleftrightarrow> (\<forall>k r. map_of (routers net) k = Some r \<longrightarrow> initial_router k r)"

text \<open>
  What every state of a run keeps: a router with a neighbour knows itself at cost 0,
  every other route is the cost of a walk that starts with the recorded next hop, and a
  neighbour is known at a cost that is at most the cost of the link.
\<close>

definition consistent :: "network \<Rightarrow> bool" where
  "consistent net \<longleftrightarrow>
     (\<forall>k r. map_of (routers net) k = Some r \<longrightarrow>
        distinct (map fst (routing_table r))
      \<and> (\<forall>v w. map_of (neighbors r) v = Some w \<longrightarrow> 0 \<le> w)
      \<and> (neighbors r \<noteq> [] \<longrightarrow> map_of (routing_table r) k = Some (0, k))
      \<and> (\<forall>d c h. map_of (routing_table r) d = Some (c, h) \<longrightarrow>
            (d = k \<and> c = 0 \<and> h = k)
          \<or> (\<exists>p. walk_cost (link_cost net) (k # h # p) = Some c \<and> last (h # p) = d))
      \<and> (\<forall>v w. map_of (neighbors r) v = Some w \<longrightarrow>
            (\<exists>c h. map_of (routing_table r) v = Some (c, h) \<and> c \<le> w)))"

text \<open>No table entry of a neighbour would improve a router's table.\<close>

definition stable :: "network \<Rightarrow> bool" where
  "stable net \<longleftrightarrow>
     (\<forall>k r nb w n d dc h.
        map_of (routers net) k = Some r \<and> map_of (neighbors r) nb = Some w
        \<and> map_of (routers net) nb = Some n \<and> map_of (routing_table n) d = Some (dc, h)
        \<longrightarrow> (\<exists>c h'. map_of (routing_table r) d = Some (c, h') \<and> c \<le> w + dc))"

text \<open>
  Routers A, B, C; link A-B of cost 1; A added a second time; links A-C of cost 1 and
  B-C of cost 5. Router B still records A as a neighbour, the new router A does not
  record B.
\<close>

definition readded_network :: network where
  "readded_network =
     (case add_links [(''A'', ''C'', 1), (''B'', ''C'', 5)]
             (add_router ''A''
                (case add_links [(''A'', ''B'', 1)]
                        (foldl (\<lambda>net n. add_router n net) Network_init [''A'', ''B'', ''C'']) of
                   Inr net \<Rightarrow> net
                 | Inl (e, net) \<Rightarrow> net)) of
        Inr net \<Rightarrow> net
      | Inl (e, net) \<Rightarrow> net)"

definition lone_router :: network where
  "lone_router = add_router ''A'' Network_init"

definition router_A_converged :: router where
  "router_A_converged =
     \<lparr>name = ''A'', neighbors = [(''B'', 1), (''F'', 3)],
      routing_table = [(''B'', 1, ''B''), (''A'', 0, ''A''), (''F'', 2, ''B''),
                       (''C'', 4, ''B''), (''E'', 4, ''B''), (''D'', 5, ''B'')]\<rparr>"

text \<open>
  Some router records in \<open>net'\<close> a destination it did not record in \<open>net\<close>, or records it
  at a strictly lower cost.
\<close>

definition better :: "network \<Rightarrow> network \<Rightarrow> bool" where
  "better net net' \<longleftrightarrow>
     (\<exists>k r r' d c' h'.
        map_of (routers net) k = Some r \<and> map_of (routers net') k = Some r'
        \<and> map_of (routing_table r') d = Some (c', h')
        \<and> (\<forall>c h. map_of (routing_table r) d = Some (c, h) \<longrightarrow> c' < c))"

subsection \<open>Exact sums\<close>

text \<open>
  Every sum that line 68 computes is the exact sum of its operands: in one call of
  \<^verbatim>\<open>update_routing_table\<close>, for one pair of a round, for the pairs of a round in the
  order of the round, and for the rounds of the loop one after the other, up to the given
  number of rounds or to the first round without a change, where the loop stops.
\<close>

definition exact_relax :: "(real \<Rightarrow> real \<Rightarrow> real) \<Rightarrow> real \<Rightarrow> table \<Rightarrow> bool" where
  "exact_relax padd w tbl \<longleftrightarrow> (\<forall>(dest, dest_cost, hop) \<in> set tbl. padd w dest_cost = w + dest_cost)"

definition exact_pair :: "(real \<Rightarrow> real \<Rightarrow> real) \<Rightarrow> string \<Rightarrow> string \<Rightarrow> network \<Rightarrow> bool" where
  "exact_pair padd rk neighbor net =
     (case map_of (routers net) neighbor of
        None \<Rightarrow> True
      | Some n \<Rightarrow>
          (case map_of (routers net) rk of
             None \<Rightarrow> True
           | Some r \<Rightarrow>
               (case map_of (neighbors r) neighbor of
                  None \<Rightarrow> True
                | Some w \<Rightarrow> exact_relax padd w (routing_table n))))"

fun exact_neighbors ::
  "(real \<Rightarrow> real \<Rightarrow> real) \<Rightarrow> string \<Rightarrow> string list \<Rightarrow> network \<Rightarrow> bool" where
  "exact_neighbors padd rk [] net = True"
| "exact_neighbors padd rk (neighbor # rest) net =
     (exact_pair padd rk neighbor net \<and>
      (case simulate_pair padd rk neighbor net of
         Inl e \<Rightarrow> True
       | Inr (net', modified) \<Rightarrow> exact_neighbors padd rk rest net'))"

fun exact_routers ::
  "(real \<Rightarrow> real \<Rightarrow> real) \<Rightarrow> string list \<Rightarrow> network \<Rightarrow> bool \<Rightarrow> bool" where
  "exact_routers padd [] net changes = True"
| "exact_routers padd (rk # rest) net changes =
     (case map_of (routers net) rk of
        None \<Rightarrow> True
      | Some r \<Rightarrow>
          (exact_neighbors padd rk (map fst (neighbors r)) net \<and>
           (case simulate_neighbors padd rk (map fst (neighbors r)) net changes of
              Inl e \<Rightarrow> True
            | Inr (net', changes') \<Rightarrow> exact_routers padd rest net' changes')))"

definition exact_round :: "(real \<Rightarrow> real \<Rightarrow> real) \<Rightarrow> network \<Rightarrow> bool" where
  "exact_round padd net = exact_routers padd (map fst (routers net)) net False"

fun exact_rounds :: "(real \<Rightarrow> real \<Rightarrow> real) \<Rightarrow> nat \<Rightarrow> network \<Rightarrow> bool" where
  "exact_rounds padd 0 net = True"
| "exact_rounds padd (Suc n) net =
     (exact_round padd net \<and>
      (case simulate_round padd net of
         Inl e \<Rightarrow> True
       | Inr (net', changes) \<Rightarrow> if changes then exact_rounds padd n net' else True))"

text \<open>
  An instance of \<open>padd\<close> that rounds: a sum up to \<open>2 ^ 53\<close> is exact, and a larger sum
  is rounded to the nearest even integer, a tie going to the multiple of 4, as a float
  between \<open>2 ^ 53\<close> and \<open>2 ^ 54\<close> is. It returns what Python returns for the three
  sums of the run on the network below: \<open>2 ^ 53\<close> for \<^verbatim>\<open>(2**53 + 1) + 0.0\<close>,
  \<open>2 ^ 54\<close> for \<^verbatim>\<open>(2**53 + 1) + 2.0**53\<close>, and the exact \<open>2 ^ 54 + 2\<close> for the sum
  \<^verbatim>\<open>(2**53 + 1) + (2**53 + 1)\<close> of two ints.
\<close>

definition round_half_even :: "real \<Rightarrow> int" where
  "round_half_even x =
     (let f = \<lfloor>x\<rfloor> in
      if x - of_int f < 1 / 2 then f
      else if 1 / 2 < x - of_int f then f + 1
      else if even f then f else f + 1)"

definition round_add :: "real \<Rightarrow> real \<Rightarrow> real" where
  "round_add a b =
     (let s = a + b in if s \<le> 2 ^ 53 then s else 2 * of_int (round_half_even (s / 2)))"

text \<open>Routers A and B with one link of cost \<open>2 ^ 53 + 1\<close>, and router A of this network.\<close>

definition big_link_network :: network where
  "big_link_network =
     (case add_links [(''A'', ''B'', 2 ^ 53 + 1)]
             (foldl (\<lambda>net n. add_router n net) Network_init [''A'', ''B'']) of
        Inr net \<Rightarrow> net
      | Inl (e, net) \<Rightarrow> net)"

definition chain_router_A_converged :: router where
  "chain_router_A_converged =
     \<lparr>name = ''A'', neighbors = [(''B'', 1)],
      routing_table = [(''B'', 1, ''B''), (''A'', 0, ''A''), (''C'', 2, ''B''),
                       (''D'', 3, ''B'')]\<rparr>"

definition big_link_router_A :: router where
  "big_link_router_A =
     \<lparr>name = ''A'', neighbors = [(''B'', 2 ^ 53 + 1)],
      routing_table = [(''B'', 2 ^ 53 + 1, ''B''), (''A'', 0, ''A'')]\<rparr>"


section \<open>Relaxation\<close>

lemma never_worse_refl: "never_worse t t"
  by (auto simp: never_worse_def)

lemma never_worse_trans: "never_worse a b \<Longrightarrow> never_worse b c \<Longrightarrow> never_worse a c"
  unfolding never_worse_def by (metis order_trans)

lemma relax_loop_map_of:
  "distinct (map fst tbl) \<Longrightarrow>
   map_of (fst (relax_loop padd nb w tbl (t, m))) d =
     (case map_of tbl d of
        None \<Rightarrow> map_of t d
      | Some (dc, h) \<Rightarrow> if improves t d (padd w dc) then Some (padd w dc, nb) else map_of t d)"
proof (induction tbl arbitrary: t m)
  case Nil
  then show ?case by simp
next
  case (Cons e tbl)
  obtain dest dc hop where e: "e = (dest, dc, hop)" by (cases e) auto
  from Cons.prems have nin: "map_of tbl dest = None" and dist: "distinct (map fst tbl)"
    by (auto simp: e map_of_eq_None_iff)
  show ?case
  proof (cases "d = dest")
    case True
    then show ?thesis using nin Cons.IH[OF dist]
      by (simp add: e Let_def update_conv')
  next
    case False
    then have "improves (AList.update dest v t) d x = improves t d x" for v x
      by (simp add: improves_def update_conv')
    then show ?thesis using False Cons.IH[OF dist]
      by (simp add: e Let_def update_conv' split: option.splits)
  qed
qed

lemma relax_loop_flag:
  "snd (relax_loop padd nb w tbl (t, m)) = (m \<or> (\<exists>(d, dc, h) \<in> set tbl. improves t d (padd w dc)))"
proof (induction tbl arbitrary: t m)
  case Nil
  then show ?case by simp
next
  case (Cons e tbl)
  obtain dest dc hop where e: "e = (dest, dc, hop)" by (cases e) auto
  show ?case using Cons.IH by (auto simp: e Let_def)
qed

lemma relax_loop_unchanged:
  "snd (relax_loop padd nb w tbl (t, m)) = False \<Longrightarrow> fst (relax_loop padd nb w tbl (t, m)) = t"
proof (induction tbl arbitrary: t m)
  case Nil
  then show ?case by simp
next
  case (Cons e tbl)
  obtain dest dc hop where e: "e = (dest, dc, hop)" by (cases e) auto
  show ?case
  proof (cases "improves t dest (padd w dc)")
    case True
    with Cons.prems have False by (simp add: e Let_def relax_loop_flag)
    then show ?thesis ..
  next
    case False
    then show ?thesis using Cons by (simp add: e Let_def)
  qed
qed

lemma never_worse_update:
  "improves t d c \<Longrightarrow> never_worse t (AList.update d (c, h) t)"
  by (auto simp: never_worse_def improves_def update_conv' split: option.splits)

lemma relax_loop_never_worse:
  "never_worse t (fst (relax_loop padd nb w tbl (t, m)))"
proof (induction tbl arbitrary: t m)
  case Nil
  then show ?case by (simp add: never_worse_refl)
next
  case (Cons e tbl)
  obtain dest dc hop where e: "e = (dest, dc, hop)" by (cases e) auto
  show ?case
    using Cons.IH never_worse_update never_worse_trans
    by (fastforce simp: e Let_def)
qed

lemma improves_iff:
  "improves t dest new_cost \<longleftrightarrow>
     map_of t dest = None \<or> (\<exists>old h. map_of t dest = Some (old, h) \<and> new_cost < old)"
  by (auto simp: improves_def split: option.splits)


lemma update_routing_table_InrD:
  assumes "update_routing_table padd r nb tbl = Inr (r', m)"
  shows "\<exists>w. map_of (neighbors r) nb = Some w
           \<and> r' = r\<lparr>routing_table := fst (relax_loop padd nb w tbl (routing_table r, False))\<rparr>
           \<and> snd (relax_loop padd nb w tbl (routing_table r, False)) = m"
  using assms by (auto simp: update_routing_table_def split: option.splits prod.splits)

section \<open>One pair, one round\<close>

lemma simulate_pair_InrD:
  assumes "simulate_pair padd rk nb net = Inr (net', m)"
  shows "\<exists>n r w. map_of (routers net) nb = Some n \<and> map_of (routers net) rk = Some r
           \<and> map_of (neighbors r) nb = Some w
           \<and> net' = net\<lparr>routers := AList.update rk
                  (r\<lparr>routing_table :=
                       fst (relax_loop padd nb w (routing_table n) (routing_table r, False))\<rparr>)
                  (routers net)\<rparr>
           \<and> snd (relax_loop padd nb w (routing_table n) (routing_table r, False)) = m"
proof -
  from assms obtain n r r' where n: "map_of (routers net) nb = Some n"
    and r: "map_of (routers net) rk = Some r"
    and u: "update_routing_table padd r nb (routing_table n) = Inr (r', m)"
    and net': "net' = net\<lparr>routers := AList.update rk r' (routers net)\<rparr>"
    by (auto simp: simulate_pair_def split: option.splits sum.splits)
  from update_routing_table_InrD[OF u] n r net' show ?thesis by auto
qed

lemma simulate_pair_unchanged:
  assumes "simulate_pair padd rk nb net = Inr (net', False)"
  shows "net' = net"
proof -
  from simulate_pair_InrD[OF assms] obtain n r w where
    n: "map_of (routers net) nb = Some n"
    and r: "map_of (routers net) rk = Some r"
    and net': "net' = net\<lparr>routers := AList.update rk
                  (r\<lparr>routing_table :=
                       fst (relax_loop padd nb w (routing_table n) (routing_table r, False))\<rparr>)
                  (routers net)\<rparr>"
    and m: "snd (relax_loop padd nb w (routing_table n) (routing_table r, False)) = False"
    by blast
  from relax_loop_unchanged[OF m] net' r show ?thesis by (simp add: update_triv)
qed

lemma simulate_neighbors_invariant:
  assumes "simulate_neighbors padd rk nbs net ch = Inr (net', ch')"
    and "P net"
    and "\<And>nb n n' m. nb \<in> set nbs \<Longrightarrow> P n \<Longrightarrow> simulate_pair padd rk nb n = Inr (n', m) \<Longrightarrow> P n'"
  shows "P net'"
  using assms
proof (induction nbs arbitrary: net ch)
  case Nil
  then show ?case by simp
next
  case (Cons nb nbs)
  from Cons.prems(1) obtain n1 m where s: "simulate_pair padd rk nb net = Inr (n1, m)"
    and rest: "simulate_neighbors padd rk nbs n1 (ch \<or> m) = Inr (net', ch')"
    by (auto split: sum.splits)
  have "P n1" using Cons.prems(3)[OF _ Cons.prems(2) s] by simp
  show ?case
    by (rule Cons.IH[OF rest \<open>P n1\<close>]) (rule Cons.prems(3), simp_all)
qed

lemma simulate_routers_invariant:
  assumes "simulate_routers padd rks net ch = Inr (net', ch')"
    and "P net"
    and "\<And>rk nb n n' m. rk \<in> set rks \<Longrightarrow> P n \<Longrightarrow> simulate_pair padd rk nb n = Inr (n', m) \<Longrightarrow> P n'"
  shows "P net'"
  using assms
proof (induction rks arbitrary: net ch)
  case Nil
  then show ?case by simp
next
  case (Cons rk rks)
  from Cons.prems(1) obtain r n1 c1 where r: "map_of (routers net) rk = Some r"
    and s: "simulate_neighbors padd rk (map fst (neighbors r)) net ch = Inr (n1, c1)"
    and rest: "simulate_routers padd rks n1 c1 = Inr (net', ch')"
    by (auto split: option.splits sum.splits)
  have "P n1"
    by (rule simulate_neighbors_invariant[where P = P, OF s Cons.prems(2)])
       (rule Cons.prems(3), simp_all)
  show ?case
    by (rule Cons.IH[OF rest \<open>P n1\<close>]) (rule Cons.prems(3), simp_all)
qed

lemma simulate_round_invariant:
  assumes "simulate_round padd net = Inr (net', ch)"
    and "P net"
    and "\<And>rk nb n n' m. P n \<Longrightarrow> simulate_pair padd rk nb n = Inr (n', m) \<Longrightarrow> P n'"
  shows "P net'"
  using assms(1) unfolding simulate_round_def
  by (rule simulate_routers_invariant) (use assms(2,3) in auto)

lemma simulate_neighbors_no_change:
  assumes "simulate_neighbors padd rk nbs net ch = Inr (net', False)"
  shows "net' = net \<and> \<not> ch \<and> (\<forall>nb \<in> set nbs. simulate_pair padd rk nb net = Inr (net, False))"
  using assms
proof (induction nbs arbitrary: net ch)
  case Nil
  then show ?case by simp
next
  case (Cons nb nbs)
  from Cons.prems obtain n1 m where s: "simulate_pair padd rk nb net = Inr (n1, m)"
    and rest: "simulate_neighbors padd rk nbs n1 (ch \<or> m) = Inr (net', False)"
    by (auto split: sum.splits)
  from Cons.IH[OF rest] have a: "net' = n1" "\<not> ch" "\<not> m"
    and b: "\<forall>nb \<in> set nbs. simulate_pair padd rk nb n1 = Inr (n1, False)" by auto
  from s a have "n1 = net" by (auto dest: simulate_pair_unchanged)
  with a b s show ?case by simp
qed

lemma simulate_routers_no_change:
  assumes "simulate_routers padd rks net ch = Inr (net', False)"
  shows "net' = net \<and> \<not> ch \<and>
         (\<forall>rk \<in> set rks. \<exists>r. map_of (routers net) rk = Some r \<and>
            (\<forall>nb \<in> set (map fst (neighbors r)). simulate_pair padd rk nb net = Inr (net, False)))"
  using assms
proof (induction rks arbitrary: net ch)
  case Nil
  then show ?case by simp
next
  case (Cons rk rks)
  from Cons.prems obtain r n1 c1 where r: "map_of (routers net) rk = Some r"
    and s: "simulate_neighbors padd rk (map fst (neighbors r)) net ch = Inr (n1, c1)"
    and rest: "simulate_routers padd rks n1 c1 = Inr (net', False)"
    by (auto split: option.splits sum.splits)
  from Cons.IH[OF rest] have a: "net' = n1" "\<not> c1"
    and b: "\<forall>rk \<in> set rks. \<exists>r. map_of (routers n1) rk = Some r \<and>
            (\<forall>nb \<in> set (map fst (neighbors r)). simulate_pair padd rk nb n1 = Inr (n1, False))"
    by auto
  from s a have s': "simulate_neighbors padd rk (map fst (neighbors r)) net ch = Inr (n1, False)"
    by simp
  from simulate_neighbors_no_change[OF s'] have c: "n1 = net" "\<not> ch"
    "\<forall>nb \<in> set (map fst (neighbors r)). simulate_pair padd rk nb net = Inr (net, False)"
    by auto
  with a b r show ?case by auto
qed



section \<open>Rounds\<close>

lemma evolves_refl: "evolves net net"
  by (auto simp: evolves_def never_worse_refl)

lemma evolves_trans:
  assumes "evolves a b" and "evolves b c"
  shows "evolves a c"
  unfolding evolves_def
proof (intro conjI allI impI)
  show "map fst (routers c) = map fst (routers a)"
    using assms by (simp add: evolves_def)
next
  fix k r
  assume "map_of (routers a) k = Some r"
  with assms(1) obtain r1 where r1: "map_of (routers b) k = Some r1" "name r1 = name r"
    "neighbors r1 = neighbors r" "never_worse (routing_table r) (routing_table r1)"
    unfolding evolves_def by blast
  with assms(2) obtain r2 where r2: "map_of (routers c) k = Some r2" "name r2 = name r1"
    "neighbors r2 = neighbors r1" "never_worse (routing_table r1) (routing_table r2)"
    unfolding evolves_def by blast
  from r1 r2 never_worse_trans
  show "\<exists>r'. map_of (routers c) k = Some r' \<and> name r' = name r \<and> neighbors r' = neighbors r
              \<and> never_worse (routing_table r) (routing_table r')"
    by force
qed

lemma map_of_keys: "map_of al k = Some v \<Longrightarrow> k \<in> set (map fst al)"
  by (metis map_of_eq_None_iff option.distinct(1) set_map)

lemma simulate_pair_evolves:
  assumes "simulate_pair padd rk nb net = Inr (net', m)"
  shows "evolves net net'"
proof -
  from simulate_pair_InrD[OF assms] obtain n r w where
    n: "map_of (routers net) nb = Some n"
    and r: "map_of (routers net) rk = Some r"
    and net': "net' = net\<lparr>routers := AList.update rk
                  (r\<lparr>routing_table :=
                       fst (relax_loop padd nb w (routing_table n) (routing_table r, False))\<rparr>)
                  (routers net)\<rparr>"
    by blast
  have keys: "map fst (routers net') = map fst (routers net)"
    using map_of_keys[OF r] by (simp add: net' update_keys)
  show ?thesis
    unfolding evolves_def
  proof (intro conjI allI impI)
    show "map fst (routers net') = map fst (routers net)" by (rule keys)
  next
    fix k x
    assume x: "map_of (routers net) k = Some x"
    show "\<exists>r'. map_of (routers net') k = Some r' \<and> name r' = name x
              \<and> neighbors r' = neighbors x
              \<and> never_worse (routing_table x) (routing_table r')"
    proof (cases "k = rk")
      case True
      with x r have "x = r" by simp
      then show ?thesis using True
        by (simp add: net' update_conv' relax_loop_never_worse)
    next
      case False
      then show ?thesis using x
        by (simp add: net' update_conv' never_worse_refl)
    qed
  qed
qed

lemma simulate_round_evolves:
  assumes "simulate_round padd net = Inr (net', changes)"
  shows "evolves net net'"
  by (rule simulate_round_invariant[where P = "evolves net", OF assms evolves_refl])
     (blast intro: evolves_trans simulate_pair_evolves)

text \<open>
  C7. One round of the simulation keeps every router, and for every router each
  destination recorded before the round is still recorded after it, at a cost that is
  not greater; the router's name and neighbours are untouched.
\<close>

theorem simulate_round_monotone:
  assumes "simulate_round padd net = Inr (net', changes)"
    and "map_of (routers net) k = Some r"
    and "map_of (routing_table r) dest = Some (cost, hop)"
  shows "\<exists>r' cost' hop'.
           map_of (routers net') k = Some r' \<and> neighbors r' = neighbors r
         \<and> map_of (routing_table r') dest = Some (cost', hop') \<and> cost' \<le> cost"
proof -
  from simulate_round_evolves[OF assms(1)] assms(2) obtain r' where
    "map_of (routers net') k = Some r'" "neighbors r' = neighbors r"
    "never_worse (routing_table r) (routing_table r')"
    unfolding evolves_def by blast
  with assms(3) show ?thesis unfolding never_worse_def by blast
qed

theorem simulate_round_monotone_witness:
  "simulate_round (+) start_network = Inr (round_1_network, True)
   \<and> map_of (routers start_network) ''A'' = Some router_A
   \<and> map_of (routing_table router_A) ''F'' = Some (3, ''F'')
   \<and> (\<exists>r' cost' hop'.
           map_of (routers round_1_network) ''A'' = Some r' \<and> neighbors r' = neighbors router_A
         \<and> map_of (routing_table r') ''F'' = Some (cost', hop') \<and> cost' \<le> 3)"
proof -
  have h1: "simulate_round (+) start_network = Inr (round_1_network, True)"
    by code_simp
  have h2: "map_of (routers start_network) ''A'' = Some router_A"
    by code_simp
  have h3: "map_of (routing_table router_A) ''F'' = Some (3, ''F'')"
    by (simp add: router_A_def)
  from simulate_round_monotone[OF h1 h2 h3] h1 h2 h3 show ?thesis by simp
qed

lemma simulate_round_unchanged:
  assumes "simulate_round padd net = Inr (net', False)"
  shows "net' = net"
proof -
  from assms have "simulate_routers padd (map fst (routers net)) net False = Inr (net', False)"
    by (simp add: simulate_round_def)
  from simulate_routers_no_change[OF this] show ?thesis by simp
qed

lemma relax_loop_better:
  "snd (relax_loop padd nb w tbl (t, m)) \<Longrightarrow> \<not> m \<Longrightarrow>
   \<exists>d c' h'. map_of (fst (relax_loop padd nb w tbl (t, m))) d = Some (c', h')
            \<and> (\<forall>c h. map_of t d = Some (c, h) \<longrightarrow> c' < c)"
proof (induction tbl arbitrary: t m)
  case Nil
  then show ?case by simp
next
  case (Cons e tbl)
  obtain dest dc hop where e: "e = (dest, dc, hop)" by (cases e) auto
  show ?case
  proof (cases "improves t dest (padd w dc)")
    case True
    let ?t1 = "AList.update dest (padd w dc, nb) t"
    have res: "relax_loop padd nb w (e # tbl) (t, m) = relax_loop padd nb w tbl (?t1, True)"
      using True by (simp add: e Let_def)
    have "never_worse ?t1 (fst (relax_loop padd nb w tbl (?t1, True)))"
      by (rule relax_loop_never_worse)
    moreover have "map_of ?t1 dest = Some (padd w dc, nb)"
      by (simp add: update_conv')
    ultimately obtain c' h' where
      c': "map_of (fst (relax_loop padd nb w tbl (?t1, True))) dest = Some (c', h')" "c' \<le> padd w dc"
      unfolding never_worse_def by blast
    from True have "\<forall>c h. map_of t dest = Some (c, h) \<longrightarrow> padd w dc < c"
      by (auto simp: improves_def)
    with c' have "\<forall>c h. map_of t dest = Some (c, h) \<longrightarrow> c' < c" by fastforce
    with c'(1) res show ?thesis by auto
  next
    case False
    then have res: "relax_loop padd nb w (e # tbl) (t, m) = relax_loop padd nb w tbl (t, m)"
      by (simp add: e Let_def)
    with Cons.prems Cons.IH[of t m] show ?thesis by simp
  qed
qed

lemma better_irrefl: "\<not> better net net"
  unfolding better_def by fastforce

lemma better_evolves:
  assumes "better a b" and "evolves b c"
  shows "better a c"
proof -
  from assms(1) obtain k r r' d c' h' where
    r: "map_of (routers a) k = Some r" and r': "map_of (routers b) k = Some r'"
    and e: "map_of (routing_table r') d = Some (c', h')"
    and lt: "\<forall>c h. map_of (routing_table r) d = Some (c, h) \<longrightarrow> c' < c"
    unfolding better_def by blast
  from assms(2) r' obtain r'' where r'': "map_of (routers c) k = Some r''"
    and nw: "never_worse (routing_table r') (routing_table r'')"
    unfolding evolves_def by blast
  from nw e obtain c'' h'' where e'': "map_of (routing_table r'') d = Some (c'', h'')"
    and le: "c'' \<le> c'"
    unfolding never_worse_def by blast
  from lt le have "\<forall>c h. map_of (routing_table r) d = Some (c, h) \<longrightarrow> c'' < c"
    by fastforce
  with r r'' e'' show ?thesis unfolding better_def by blast
qed

lemma evolves_better:
  assumes "evolves a b" and "better b c"
  shows "better a c"
proof -
  from assms(2) obtain k r1 r2 d c2 h2 where
    r1: "map_of (routers b) k = Some r1" and r2: "map_of (routers c) k = Some r2"
    and e: "map_of (routing_table r2) d = Some (c2, h2)"
    and lt: "\<forall>c h. map_of (routing_table r1) d = Some (c, h) \<longrightarrow> c2 < c"
    unfolding better_def by blast
  from assms(1) map_of_keys[OF r1] have "map_of (routers a) k \<noteq> None"
    by (simp add: evolves_def map_of_eq_None_iff)
  then obtain r0 where r0: "map_of (routers a) k = Some r0" by blast
  with assms(1) r1 have nw: "never_worse (routing_table r0) (routing_table r1)"
    unfolding evolves_def by fastforce
  have "\<forall>c h. map_of (routing_table r0) d = Some (c, h) \<longrightarrow> c2 < c"
  proof (intro allI impI)
    fix c h
    assume "map_of (routing_table r0) d = Some (c, h)"
    with nw obtain c1 h1 where "map_of (routing_table r1) d = Some (c1, h1)" "c1 \<le> c"
      unfolding never_worse_def by blast
    with lt show "c2 < c" by fastforce
  qed
  with r0 r2 e show ?thesis unfolding better_def by blast
qed

lemma simulate_pair_better:
  assumes "simulate_pair padd rk nb net = Inr (net', True)"
  shows "better net net'"
proof -
  from simulate_pair_InrD[OF assms] obtain n r w where
    n: "map_of (routers net) nb = Some n"
    and r: "map_of (routers net) rk = Some r"
    and net': "net' = net\<lparr>routers := AList.update rk
                  (r\<lparr>routing_table :=
                       fst (relax_loop padd nb w (routing_table n) (routing_table r, False))\<rparr>)
                  (routers net)\<rparr>"
    and m: "snd (relax_loop padd nb w (routing_table n) (routing_table r, False)) = True"
    by blast
  from m relax_loop_better[of padd nb w "routing_table n" "routing_table r" False]
  obtain d c' h' where
    "map_of (fst (relax_loop padd nb w (routing_table n) (routing_table r, False))) d = Some (c', h')"
    "\<forall>c h. map_of (routing_table r) d = Some (c, h) \<longrightarrow> c' < c"
    by auto
  with r show ?thesis
    unfolding better_def net'
    by (intro exI[of _ rk] exI[of _ r] exI[of _ d] exI[of _ c'] exI[of _ h']
        exI[of _ "r\<lparr>routing_table :=
                       fst (relax_loop padd nb w (routing_table n) (routing_table r, False))\<rparr>"])
       (simp add: update_conv')
qed

lemma simulate_neighbors_better:
  assumes "simulate_neighbors padd rk nbs n1 ch = Inr (n2, ch')"
    and "evolves n0 n1" and "ch \<longrightarrow> better n0 n1"
  shows "evolves n0 n2 \<and> (ch' \<longrightarrow> better n0 n2)"
  using assms
proof (induction nbs arbitrary: n1 ch)
  case Nil
  then show ?case by simp
next
  case (Cons nb nbs)
  from Cons.prems(1) obtain n1' m where s: "simulate_pair padd rk nb n1 = Inr (n1', m)"
    and rest: "simulate_neighbors padd rk nbs n1' (ch \<or> m) = Inr (n2, ch')"
    by (auto split: sum.splits)
  from simulate_pair_evolves[OF s] have ev1: "evolves n1 n1'" .
  have ev: "evolves n0 n1'" by (rule evolves_trans[OF Cons.prems(2) ev1])
  have b: "ch \<or> m \<longrightarrow> better n0 n1'"
  proof
    assume "ch \<or> m"
    then show "better n0 n1'"
    proof
      assume ch
      with Cons.prems(3) have "better n0 n1" by simp
      from better_evolves[OF this ev1] show ?thesis .
    next
      assume m
      with s have "better n1 n1'" by (simp add: simulate_pair_better)
      from evolves_better[OF Cons.prems(2) this] show ?thesis .
    qed
  qed
  from Cons.IH[OF rest ev b] show ?case .
qed

lemma simulate_routers_better:
  assumes "simulate_routers padd rks n1 ch = Inr (n2, ch')"
    and "evolves n0 n1" and "ch \<longrightarrow> better n0 n1"
  shows "evolves n0 n2 \<and> (ch' \<longrightarrow> better n0 n2)"
  using assms
proof (induction rks arbitrary: n1 ch)
  case Nil
  then show ?case by simp
next
  case (Cons rk rks)
  from Cons.prems(1) obtain r n1' c1 where
    s: "simulate_neighbors padd rk (map fst (neighbors r)) n1 ch = Inr (n1', c1)"
    and r: "map_of (routers n1) rk = Some r"
    and rest: "simulate_routers padd rks n1' c1 = Inr (n2, ch')"
    by (auto split: option.splits sum.splits)
  from simulate_neighbors_better[OF s Cons.prems(2,3)]
  have "evolves n0 n1'" "c1 \<longrightarrow> better n0 n1'" by simp_all
  from Cons.IH[OF rest this] show ?case .
qed

lemma simulate_round_changed:
  assumes "simulate_round padd net = Inr (net', True)"
  shows "net' \<noteq> net"
proof -
  from assms have "simulate_routers padd (map fst (routers net)) net False = Inr (net', True)"
    by (simp add: simulate_round_def)
  from simulate_routers_better[OF this evolves_refl] have "better net net'" by simp
  with better_irrefl show ?thesis by auto
qed

text \<open>
  C8. A round reports no change exactly when it leaves the network as it was. After
  such a round the next round again reports no change and leaves the same network.
\<close>

theorem simulate_round_fixed_point:
  assumes "simulate_round padd net = Inr (net', changes)"
    and "\<not> changes \<or> net' = net"
  shows "\<not> changes \<and> net' = net \<and> simulate_round padd net' = Inr (net', False)"
proof -
  from assms simulate_round_changed have nc: "\<not> changes" by (cases changes) auto
  with assms(1) simulate_round_unchanged have "net' = net" by auto
  with assms(1) nc show ?thesis by simp
qed

theorem simulate_round_fixed_point_witness:
  "simulate_round (+) converged_network = Inr (converged_network, False)
   \<and> simulate_round (+) (fst (projr (simulate_round (+) converged_network))) =
       Inr (converged_network, False)"
proof -
  have h: "simulate_round (+) converged_network = Inr (converged_network, False)"
    by code_simp
  have g: "\<not> False \<or> converged_network = converged_network"
    by simp
  from simulate_round_fixed_point[OF h g] h show ?thesis by simp
qed

section \<open>Building the network\<close>

text \<open>
  C10. \<^verbatim>\<open>add_router\<close> with an id that is already present puts a fresh router, without
  neighbours and without routes, in the place of the old one; the order of the routers
  and every other router (its neighbours, which may name the replaced id, and its table)
  are as before.
\<close>

theorem add_router_replaces:
  assumes "map_of (routers net) n = Some old"
  shows "map_of (routers (add_router n net)) n = Some (Router_init n)
       \<and> name (Router_init n) = n
       \<and> neighbors (Router_init n) = [] \<and> routing_table (Router_init n) = []
       \<and> map fst (routers (add_router n net)) = map fst (routers net)
       \<and> (\<forall>k. k \<noteq> n \<longrightarrow> map_of (routers (add_router n net)) k = map_of (routers net) k)"
  using map_of_keys[OF assms]
  by (simp add: add_router_def update_conv' update_keys Router_init_def)

theorem add_router_replaces_witness:
  "map_of (routers converged_network) ''B'' \<noteq> None
   \<and> map_of (routers (add_router ''B'' converged_network)) ''B'' =
       Some \<lparr>name = ''B'', neighbors = [], routing_table = []\<rparr>
   \<and> map_option neighbors (map_of (routers (add_router ''B'' converged_network)) ''A'') =
       Some [(''B'', 1), (''F'', 3)]"
proof -
  have "map_of (routers converged_network) ''B'' \<noteq> None"
    by code_simp
  then obtain old where h: "map_of (routers converged_network) ''B'' = Some old"
    by blast
  have a: "map_option neighbors (map_of (routers converged_network) ''A'') =
       Some [(''B'', 1), (''F'', 3)]"
    by code_simp
  from add_router_replaces[OF h] h a show ?thesis
    by (simp add: Router_init_def)
qed

section \<open>The example of \<^verbatim>\<open>main\<close>\<close>

text \<open>
  C2, as the specification states it, gives router A the next hop F for destination E
  and the next hop E for destination D. Neither is a neighbour of A: the table
  \<^verbatim>\<open>main\<close> computes records B for both.
\<close>

theorem main_next_hop_counterexample:
  "route converged_network ''A'' ''E'' = Some (4, ''B'')
   \<and> route converged_network ''A'' ''E'' \<noteq> Some (4, ''F'')
   \<and> route converged_network ''A'' ''D'' = Some (5, ''B'')
   \<and> route converged_network ''A'' ''D'' \<noteq> Some (5, ''E'')"
  by code_simp

text \<open>
  C2, amended. \<^verbatim>\<open>main\<close> builds the example network without an exception; the
  simulation with the cap of 100 rounds stops after 4 rounds with \<^verbatim>\<open>converged\<close> set,
  prints the convergence message last and no warning, and leaves router A with the table
  A = 0, B = 1, F = 2, C = 4, E = 4, D = 5, every route but its own through next hop B.
  The costs of this run and their sums are small integers, which Python adds without
  rounding: the addition is \<open>(+)\<close>.
\<close>

theorem main_converged_table:
  "main_network = Inr start_network
   \<and> map_sum id (\<lambda>(iteration, converged, net, out). (iteration, converged, net))
        (simulate_loop (+) 100 0 False start_network [Start_banner])
       = Inr (4, True, converged_network)
   \<and> map_sum id (\<lambda>(u, net, out). (net, last out, Max_iterations_warning \<in> set out)) (main (+))
       = Inr (converged_network, Converged_message, False)
   \<and> map_option routing_table (map_of (routers converged_network) ''A'') =
       Some [(''B'', 1, ''B''), (''A'', 0, ''A''), (''F'', 2, ''B''), (''C'', 4, ''B''),
             (''E'', 4, ''B''), (''D'', 5, ''B'')]"
  by code_simp

section \<open>Reading a neighbour's table in the middle of a round\<close>

text \<open>
  C9. In the chain A, B, C, D the only neighbour of D is C, and before the first round
  neither C nor D has a route to A. In the first round C, processed third, learns the
  route to A of cost 2 from B, and D, processed last, reads the table of C as it is
  then and records the route to A of cost 3 through C in the same round. The sums of
  this round are small integers, which Python adds without rounding: the addition is
  \<open>(+)\<close>.
\<close>

theorem simulate_round_reads_current_tables:
  "map_option neighbors (map_of (routers chain_network) ''D'') = Some [(''C'', 1)]
   \<and> map fst (routers chain_network) = [''A'', ''B'', ''C'', ''D'']
   \<and> route chain_network ''C'' ''A'' = None
   \<and> route chain_network ''D'' ''A'' = None
   \<and> map_sum id (\<lambda>(net, changes). (route net ''C'' ''A'', route net ''D'' ''A'', changes))
        (simulate_round (+) chain_network) = Inr (Some (2, ''B''), Some (3, ''C''), True)"
  by code_simp

section \<open>Links\<close>

lemma add_neighbor_fields:
  "name (add_neighbor r n c) = name r"
  "neighbors (add_neighbor r n c) = AList.update n c (neighbors r)"
  by (simp_all add: add_neighbor_def)

lemma add_link_present:
  assumes "map_of (routers net) u = Some ru" and "map_of (routers net) v = Some rv"
  shows "add_link u v c net =
           Inr (net\<lparr>routers :=
                  AList.update v
                    (add_neighbor (if v = u then add_neighbor ru v c else rv) u c)
                    (AList.update u (add_neighbor ru v c) (routers net))\<rparr>)"
  using assms by (simp add: add_link_def Let_def update_conv')

lemma add_link_link_cost:
  assumes "map_of (routers net) u = Some ru" and "map_of (routers net) v = Some rv"
    and "add_link u v c net = Inr net'"
  shows "link_cost net' x y =
           (if (x = u \<and> y = v) \<or> (x = v \<and> y = u) then Some c else link_cost net x y)"
proof -
  from add_link_present[OF assms(1,2)] assms(3)
  have net': "routers net' =
                AList.update v
                  (add_neighbor (if v = u then add_neighbor ru v c else rv) u c)
                  (AList.update u (add_neighbor ru v c) (routers net))"
    by auto
  show ?thesis
    using assms(1,2)
    by (auto simp: link_cost_def net' update_conv' add_neighbor_fields)
qed

text \<open>
  C6, as stated, promises that a call with an absent id changes no router. With the
  first id present and the second absent, the first router has its new neighbour and
  route when \<^verbatim>\<open>KeyError\<close> is raised.
\<close>

theorem add_link_not_atomic_counterexample:
  "map_of (routers (add_router ''A'' Network_init)) ''B'' = None
   \<and> routers (add_router ''A'' Network_init) =
       [(''A'', \<lparr>name = ''A'', neighbors = [], routing_table = []\<rparr>)]
   \<and> add_link ''A'' ''B'' 1 (add_router ''A'' Network_init) =
       Inl (KeyError,
            \<lparr>routers = [(''A'', \<lparr>name = ''A'', neighbors = [(''B'', 1)],
                          routing_table = [(''B'', 1, ''B''), (''A'', 0, ''A'')]\<rparr>)]\<rparr>)"
  by (simp add: add_link_def add_router_def Network_init_def Router_init_def add_neighbor_def)

text \<open>
  C6, amended. With both ids present, \<^verbatim>\<open>add_link(u, v, c)\<close> returns, both routers
  record the cost \<open>c\<close> for the other, no other link record changes, and symmetric
  link records stay symmetric. With the first id absent it raises \<^verbatim>\<open>KeyError\<close> and
  the network is unchanged. With only the second id absent it raises \<^verbatim>\<open>KeyError\<close>
  after the first router has been given the neighbour, so the state is changed.
\<close>

theorem add_link_outcomes:
  "(map_of (routers net) u = Some ru \<and> map_of (routers net) v = Some rv \<longrightarrow>
      (\<exists>net'. add_link u v c net = Inr net'
         \<and> link_cost net' u v = Some c \<and> link_cost net' v u = Some c
         \<and> map fst (routers net') = map fst (routers net)
         \<and> (\<forall>x y. (x, y) \<noteq> (u, v) \<and> (x, y) \<noteq> (v, u) \<longrightarrow> link_cost net' x y = link_cost net x y)
         \<and> (symmetric net \<longrightarrow> symmetric net')))
   \<and> (map_of (routers net) u = None \<longrightarrow> add_link u v c net = Inl (KeyError, net))
   \<and> (map_of (routers net) u = Some ru \<and> map_of (routers net) v = None \<longrightarrow>
        add_link u v c net =
          Inl (KeyError, net\<lparr>routers := AList.update u (add_neighbor ru v c) (routers net)\<rparr>))"
proof (intro conjI impI)
  assume h: "map_of (routers net) u = Some ru \<and> map_of (routers net) v = Some rv"
  then have u: "map_of (routers net) u = Some ru" and v: "map_of (routers net) v = Some rv"
    by simp_all
  define net' where "net' = net\<lparr>routers :=
                AList.update v
                  (add_neighbor (if v = u then add_neighbor ru v c else rv) u c)
                  (AList.update u (add_neighbor ru v c) (routers net))\<rparr>"
  have r: "add_link u v c net = Inr net'"
    unfolding net'_def by (rule add_link_present[OF u v])
  have rs: "routers net' =
                AList.update v
                  (add_neighbor (if v = u then add_neighbor ru v c else rv) u c)
                  (AList.update u (add_neighbor ru v c) (routers net))"
    by (simp add: net'_def)
  note lc = add_link_link_cost[OF u v r]
  have keys: "map fst (routers net') = map fst (routers net)"
    using map_of_keys[OF u] map_of_keys[OF v] by (simp add: rs update_keys)
  have sym: "symmetric net'" if "symmetric net"
    using that unfolding symmetric_def lc by auto
  show "\<exists>net'. add_link u v c net = Inr net'
         \<and> link_cost net' u v = Some c \<and> link_cost net' v u = Some c
         \<and> map fst (routers net') = map fst (routers net)
         \<and> (\<forall>x y. (x, y) \<noteq> (u, v) \<and> (x, y) \<noteq> (v, u) \<longrightarrow> link_cost net' x y = link_cost net x y)
         \<and> (symmetric net \<longrightarrow> symmetric net')"
    using r keys sym by (intro exI[of _ net']) (simp add: lc)
next
  assume "map_of (routers net) u = None"
  then show "add_link u v c net = Inl (KeyError, net)"
    by (simp add: add_link_def)
next
  assume "map_of (routers net) u = Some ru \<and> map_of (routers net) v = None"
  then show "add_link u v c net =
          Inl (KeyError, net\<lparr>routers := AList.update u (add_neighbor ru v c) (routers net)\<rparr>)"
    by (auto simp: add_link_def Let_def update_conv')
qed

lemma routers_AB_simps:
  "map_of (routers routers_AB) ''A'' = Some (Router_init ''A'')"
  "map_of (routers routers_AB) ''B'' = Some (Router_init ''B'')"
  by (simp_all add: routers_AB_def add_router_def Network_init_def)

lemma symmetric_routers_AB: "symmetric routers_AB"
  by (auto simp: symmetric_def link_cost_def routers_AB_def add_router_def Network_init_def
      Router_init_def split: option.splits)

theorem add_link_outcomes_witness:
  "(map_of (routers routers_AB) ''A'' = Some (Router_init ''A'')
    \<and> map_of (routers routers_AB) ''B'' = Some (Router_init ''B'')
    \<and> symmetric routers_AB
    \<and> (\<exists>net'. add_link ''A'' ''B'' 1 routers_AB = Inr net'
          \<and> link_cost net' ''A'' ''B'' = Some 1 \<and> link_cost net' ''B'' ''A'' = Some 1
          \<and> symmetric net'))
   \<and> (map_of (routers Network_init) ''A'' = None
      \<and> add_link ''A'' ''B'' 1 Network_init = Inl (KeyError, Network_init))
   \<and> (map_of (routers (add_router ''A'' Network_init)) ''A'' = Some (Router_init ''A'')
      \<and> map_of (routers (add_router ''A'' Network_init)) ''B'' = None
      \<and> add_link ''A'' ''B'' 1 (add_router ''A'' Network_init) =
          Inl (KeyError, (add_router ''A'' Network_init)
                 \<lparr>routers := AList.update ''A'' (add_neighbor (Router_init ''A'') ''B'' 1)
                               (routers (add_router ''A'' Network_init))\<rparr>))"
proof -
  have a: "map_of (routers Network_init) ''A'' = None"
    by (simp add: Network_init_def)
  have b: "map_of (routers (add_router ''A'' Network_init)) ''A'' = Some (Router_init ''A'')"
    "map_of (routers (add_router ''A'' Network_init)) ''B'' = None"
    by (simp_all add: add_router_def Network_init_def)
  from add_link_outcomes[of routers_AB "''A''" "Router_init ''A''" "''B''" "Router_init ''B''" 1]
    add_link_outcomes[of Network_init "''A''" "Router_init ''A''" "''B''" "Router_init ''B''" 1]
    add_link_outcomes[of "add_router ''A'' Network_init" "''A''" "Router_init ''A''" "''B''"
      "Router_init ''B''" 1]
    routers_AB_simps symmetric_routers_AB a b
  show ?thesis by auto
qed

section \<open>The simulation loop\<close>








lemma simulate_loop_stop:
  "converged \<or> \<not> iteration < max_iterations \<Longrightarrow>
   simulate_loop padd max_iterations iteration converged net out = Inr (iteration, converged, net, out)"
  by (subst simulate_loop.simps) auto

lemma simulate_loop_step:
  "\<not> converged \<Longrightarrow> iteration < max_iterations \<Longrightarrow> simulate_round padd net = Inr (net', changes) \<Longrightarrow>
   simulate_loop padd max_iterations iteration converged net out =
     simulate_loop padd max_iterations (iteration + 1) (\<not> changes) net'
       (out @ [Iteration_header (iteration + 1)] @ display_tables net'
            @ (if changes then [] else [Converged_message]))"
  by (subst simulate_loop.simps) simp






section \<open>Tables and walks\<close>

lemma link_cost_evolves:
  assumes "evolves net net'"
  shows "link_cost net' = link_cost net"
proof (intro ext)
  fix u v
  show "link_cost net' u v = link_cost net u v"
  proof (cases "map_of (routers net) u")
    case None
    then have "u \<notin> set (map fst (routers net))"
      by (simp add: map_of_eq_None_iff)
    with assms have "u \<notin> set (map fst (routers net'))"
      by (simp add: evolves_def)
    then have "map_of (routers net') u = None"
      by (simp add: map_of_eq_None_iff)
    with None show ?thesis by (simp add: link_cost_def)
  next
    case (Some r)
    with assms obtain r' where "map_of (routers net') u = Some r'" "neighbors r' = neighbors r"
      unfolding evolves_def by blast
    with Some show ?thesis by (simp add: link_cost_def)
  qed
qed

lemma walk_cost_nonneg:
  "\<forall>u v c. lc u v = Some c \<longrightarrow> 0 \<le> c \<Longrightarrow> walk_cost lc p = Some c \<Longrightarrow> 0 \<le> c"
proof (induction lc p arbitrary: c rule: walk_cost.induct)
  case (1 lc)
  then show ?case by simp
next
  case (2 lc v)
  then show ?case by simp
next
  case (3 lc u v p)
  from "3.prems"(2) obtain a b where a: "lc u v = Some a"
    and b: "walk_cost lc (v # p) = Some b" and c: "c = a + b"
    by (auto split: option.splits)
  from "3.IH"[OF a "3.prems"(1) b] "3.prems"(1) a c show ?case by auto
qed

lemma walk_cost_step:
  "lc u v = Some a \<Longrightarrow> walk_cost lc (v # p) = Some b \<Longrightarrow> walk_cost lc (u # v # p) = Some (a + b)"
  by simp

lemma relax_loop_distinct:
  "distinct (map fst t) \<Longrightarrow> distinct (map fst (fst (relax_loop padd nb w tbl (t, m))))"
proof (induction tbl arbitrary: t m)
  case Nil
  then show ?case by simp
next
  case (Cons e tbl)
  obtain dest dc hop where e: "e = (dest, dc, hop)" by (cases e) auto
  show ?case
    using Cons.IH Cons.prems by (simp add: e Let_def distinct_update)
qed

lemma consistent_link_nonneg:
  assumes "consistent net" and "link_cost net u v = Some c"
  shows "0 \<le> c"
proof -
  from assms(2) obtain r where "map_of (routers net) u = Some r" "map_of (neighbors r) v = Some c"
    by (auto simp: link_cost_def split: option.splits)
  with assms(1) show ?thesis unfolding consistent_def by blast
qed

lemma initial_consistent:
  assumes "initial net"
  shows "consistent net"
  unfolding consistent_def
proof (intro allI impI conjI)
  fix k r
  assume r: "map_of (routers net) k = Some r"
  from assms r show "distinct (map fst (routing_table r))"
    unfolding initial_def initial_router_def by blast
  from assms r show "neighbors r \<noteq> [] \<Longrightarrow> map_of (routing_table r) k = Some (0, k)"
    unfolding initial_def initial_router_def by blast
  show "0 \<le> w" if "map_of (neighbors r) v = Some w" for v w
    using assms r that unfolding initial_def initial_router_def by blast
  show "\<exists>c h. map_of (routing_table r) v = Some (c, h) \<and> c \<le> w"
    if "map_of (neighbors r) v = Some w" for v w
    using assms r that unfolding initial_def initial_router_def by blast
  show "(d = k \<and> c = 0 \<and> h = k)
        \<or> (\<exists>p. walk_cost (link_cost net) (k # h # p) = Some c \<and> last (h # p) = d)"
    if e: "map_of (routing_table r) d = Some (c, h)" for d c h
  proof -
    from assms r e have "(d = k \<and> c = 0 \<and> h = k) \<or> (h = d \<and> map_of (neighbors r) d = Some c)"
      unfolding initial_def initial_router_def by blast
    then show ?thesis
    proof
      assume "d = k \<and> c = 0 \<and> h = k"
      then show ?thesis by simp
    next
      assume "h = d \<and> map_of (neighbors r) d = Some c"
      with r have "walk_cost (link_cost net) (k # h # []) = Some c \<and> last (h # []) = d"
        by (simp add: link_cost_def)
      then show ?thesis by blast
    qed
  qed
qed

lemma consistentD:
  assumes "consistent net" and "map_of (routers net) k = Some r"
  shows "distinct (map fst (routing_table r))"
    and "\<And>v w. map_of (neighbors r) v = Some w \<Longrightarrow> 0 \<le> w"
    and "neighbors r \<noteq> [] \<Longrightarrow> map_of (routing_table r) k = Some (0, k)"
    and "\<And>d c h. map_of (routing_table r) d = Some (c, h) \<Longrightarrow>
            (d = k \<and> c = 0 \<and> h = k)
          \<or> (\<exists>p. walk_cost (link_cost net) (k # h # p) = Some c \<and> last (h # p) = d)"
    and "\<And>v w. map_of (neighbors r) v = Some w \<Longrightarrow>
            \<exists>c h. map_of (routing_table r) v = Some (c, h) \<and> c \<le> w"
  using assms unfolding consistent_def by blast+

lemma consistent_cost_nonneg:
  assumes "consistent net" and "map_of (routers net) k = Some r"
    and "map_of (routing_table r) d = Some (c, h)"
  shows "0 \<le> c"
proof -
  from consistentD(4)[OF assms]
  have "(d = k \<and> c = 0 \<and> h = k)
        \<or> (\<exists>p. walk_cost (link_cost net) (k # h # p) = Some c \<and> last (h # p) = d)" .
  then show ?thesis
  proof
    assume "d = k \<and> c = 0 \<and> h = k"
    then show ?thesis by simp
  next
    assume "\<exists>p. walk_cost (link_cost net) (k # h # p) = Some c \<and> last (h # p) = d"
    then obtain p where p: "walk_cost (link_cost net) (k # h # p) = Some c" by blast
    have "\<forall>u v c. link_cost net u v = Some c \<longrightarrow> 0 \<le> c"
      using consistent_link_nonneg[OF assms(1)] by blast
    from walk_cost_nonneg[OF this p] show ?thesis .
  qed
qed

lemma simulate_pair_consistent:
  assumes c: "consistent net" and s: "simulate_pair (+) rk nb net = Inr (net', m)"
  shows "consistent net'"
proof -
  from simulate_pair_InrD[OF s] obtain n r w where
    n: "map_of (routers net) nb = Some n"
    and r: "map_of (routers net) rk = Some r"
    and w: "map_of (neighbors r) nb = Some w"
    and net': "net' = net\<lparr>routers := AList.update rk
                  (r\<lparr>routing_table :=
                       fst (relax_loop (+) nb w (routing_table n) (routing_table r, False))\<rparr>)
                  (routers net)\<rparr>"
    by blast
  define T where "T = fst (relax_loop (+) nb w (routing_table n) (routing_table r, False))"
  have lc: "link_cost net' = link_cost net"
    by (rule link_cost_evolves[OF simulate_pair_evolves[OF s]])
  have lrk: "link_cost net rk nb = Some w"
    using r w by (simp add: link_cost_def)
  have w0: "0 \<le> w" by (rule consistentD(2)[OF c r w])
  from w have nonempty: "neighbors r \<noteq> []" by auto
  have self_r: "map_of (routing_table r) rk = Some (0, rk)"
    by (rule consistentD(3)[OF c r nonempty])
  have T: "map_of T d =
             (case map_of (routing_table n) d of
                None \<Rightarrow> map_of (routing_table r) d
              | Some (dc, h) \<Rightarrow>
                  if improves (routing_table r) d (w + dc) then Some (w + dc, nb)
                  else map_of (routing_table r) d)" for d
    unfolding T_def by (rule relax_loop_map_of[OF consistentD(1)[OF c n]])
  have dist_T: "distinct (map fst T)"
    unfolding T_def by (rule relax_loop_distinct[OF consistentD(1)[OF c r]])
  have self_T: "map_of T rk = Some (0, rk)"
  proof (cases "map_of (routing_table n) rk")
    case None
    with T[of rk] self_r show ?thesis by simp
  next
    case (Some e)
    obtain dc h where e: "e = (dc, h)" by (cases e)
    from consistent_cost_nonneg[OF c n Some[unfolded e]] w0
    have "\<not> improves (routing_table r) rk (w + dc)"
      by (simp add: improves_def self_r)
    with T[of rk] Some e self_r show ?thesis by simp
  qed
  have sound_T: "(d = rk \<and> x = 0 \<and> h = rk)
        \<or> (\<exists>p. walk_cost (link_cost net) (rk # h # p) = Some x \<and> last (h # p) = d)"
    if e: "map_of T d = Some (x, h)" for d x h
  proof (cases "map_of (routing_table r) d = Some (x, h)")
    case True
    from consistentD(4)[OF c r True] show ?thesis .
  next
    case False
    with e T[of d] obtain dc h0 where ne: "map_of (routing_table n) d = Some (dc, h0)"
      and x: "x = w + dc" and h: "h = nb"
      by (auto split: option.splits if_splits)
    from consistentD(4)[OF c n ne]
    have "(d = nb \<and> dc = 0 \<and> h0 = nb)
          \<or> (\<exists>p. walk_cost (link_cost net) (nb # h0 # p) = Some dc \<and> last (h0 # p) = d)" .
    then show ?thesis
    proof
      assume "d = nb \<and> dc = 0 \<and> h0 = nb"
      with lrk x h have "walk_cost (link_cost net) (rk # h # []) = Some x \<and> last (h # []) = d"
        by simp
      then show ?thesis by blast
    next
      assume "\<exists>p. walk_cost (link_cost net) (nb # h0 # p) = Some dc \<and> last (h0 # p) = d"
      then obtain p where p: "walk_cost (link_cost net) (nb # h0 # p) = Some dc"
        and l: "last (h0 # p) = d" by blast
      from walk_cost_step[OF lrk p] x h l
      have "walk_cost (link_cost net) (rk # h # (h0 # p)) = Some x \<and> last (h # (h0 # p)) = d"
        by simp
      then show ?thesis by blast
    qed
  qed
  have nw: "never_worse (routing_table r) T"
    unfolding T_def by (rule relax_loop_never_worse)
  have direct_T: "\<exists>x h. map_of T v = Some (x, h) \<and> x \<le> u"
    if "map_of (neighbors r) v = Some u" for v u
  proof -
    from consistentD(5)[OF c r that] obtain x0 h0 where
      "map_of (routing_table r) v = Some (x0, h0)" "x0 \<le> u" by blast
    with nw show ?thesis unfolding never_worse_def by (meson order_trans)
  qed
  show ?thesis
    unfolding consistent_def lc
  proof (intro allI impI)
    fix k r0
    assume r0: "map_of (routers net') k = Some r0"
    show "distinct (map fst (routing_table r0))
      \<and> (\<forall>v w. map_of (neighbors r0) v = Some w \<longrightarrow> 0 \<le> w)
      \<and> (neighbors r0 \<noteq> [] \<longrightarrow> map_of (routing_table r0) k = Some (0, k))
      \<and> (\<forall>d c h. map_of (routing_table r0) d = Some (c, h) \<longrightarrow>
            (d = k \<and> c = 0 \<and> h = k)
          \<or> (\<exists>p. walk_cost (link_cost net) (k # h # p) = Some c \<and> last (h # p) = d))
      \<and> (\<forall>v w. map_of (neighbors r0) v = Some w \<longrightarrow>
            (\<exists>c h. map_of (routing_table r0) v = Some (c, h) \<and> c \<le> w))"
    proof (cases "k = rk")
      case True
      with r0 have eq: "r0 = r\<lparr>routing_table := T\<rparr>"
        by (simp add: net' update_conv' T_def)
      show ?thesis
        unfolding eq True using dist_T self_T sound_T direct_T consistentD(2)[OF c r]
        by simp
    next
      case False
      with r0 have old: "map_of (routers net) k = Some r0"
        by (simp add: net' update_conv')
      from consistentD[OF c old] show ?thesis by blast
    qed
  qed
qed

lemma simulate_round_consistent:
  assumes "consistent net" and "simulate_round (+) net = Inr (net', changes)"
  shows "consistent net'"
  by (rule simulate_round_invariant[where P = consistent, OF assms(2,1)])
     (rule simulate_pair_consistent)

section \<open>Convergence\<close>

lemma simulate_loop_invariant:
  assumes "simulate_loop padd m i conv net out = Inr (it, conv', net', out')"
    and "P net"
    and step: "\<And>n n' ch. P n \<Longrightarrow> simulate_round padd n = Inr (n', ch) \<Longrightarrow> P n'"
  shows "P net'"
  using assms
proof (induction padd m i conv net out rule: simulate_loop.induct)
  case (1 padd m i conv net out)
  show ?case
  proof (cases "\<not> conv \<and> i < m")
    case False
    then have "simulate_loop padd m i conv net out = Inr (i, conv, net, out)"
      by (intro simulate_loop_stop) auto
    with "1.prems" show ?thesis by simp
  next
    case True
    show ?thesis
    proof (cases "simulate_round padd net")
      case (Inl e)
      with True have "simulate_loop padd m i conv net out = Inl e"
        by (subst simulate_loop.simps) simp
      with "1.prems"(1) show ?thesis by simp
    next
      case (Inr x)
      obtain n1 ch where x: "x = (n1, ch)" by (cases x)
      from Inr x have r: "simulate_round padd net = Inr (n1, ch)" by simp
      from True have nc: "\<not> conv" and lt: "i < m" by simp_all
      from simulate_loop_step[OF nc lt r, of out] "1.prems"(1)
      have rec: "simulate_loop padd m (i + 1) (\<not> ch) n1
                   (out @ [Iteration_header (i + 1)] @ display_tables n1
                        @ (if ch then [] else [Converged_message]))
                 = Inr (it, conv', net', out')"
        by simp
      from "1.prems"(3)[OF "1.prems"(2) r] have "P n1" .
      from "1.IH"[OF True r refl rec this "1.prems"(3)] show ?thesis .
    qed
  qed
qed

lemma simulate_loop_converged_fixed:
  assumes "simulate_loop padd m i conv net out = Inr (it, True, net', out')" and "\<not> conv"
  shows "simulate_round padd net' = Inr (net', False)"
  using assms
proof (induction padd m i conv net out rule: simulate_loop.induct)
  case (1 padd m i conv net out)
  show ?case
  proof (cases "\<not> conv \<and> i < m")
    case False
    then have "simulate_loop padd m i conv net out = Inr (i, conv, net, out)"
      by (intro simulate_loop_stop) auto
    with "1.prems" show ?thesis by simp
  next
    case True
    show ?thesis
    proof (cases "simulate_round padd net")
      case (Inl e)
      with True have "simulate_loop padd m i conv net out = Inl e"
        by (subst simulate_loop.simps) simp
      with "1.prems"(1) show ?thesis by simp
    next
      case (Inr x)
      obtain n1 ch where x: "x = (n1, ch)" by (cases x)
      from Inr x have r: "simulate_round padd net = Inr (n1, ch)" by simp
      let ?out1 = "out @ [Iteration_header (i + 1)] @ display_tables n1
                        @ (if ch then [] else [Converged_message])"
      from True have nc: "\<not> conv" and lt: "i < m" by simp_all
      from simulate_loop_step[OF nc lt r, of out] "1.prems"(1)
      have rec: "simulate_loop padd m (i + 1) (\<not> ch) n1 ?out1 = Inr (it, True, net', out')"
        by simp
      show ?thesis
      proof (cases ch)
        case True
        then have "\<not> \<not> ch" by simp
        from "1.IH"[OF \<open>\<not> conv \<and> i < m\<close> r refl rec this] show ?thesis .
      next
        case False
        then have "simulate_loop padd m (i + 1) (\<not> ch) n1 ?out1 = Inr (i + 1, \<not> ch, n1, ?out1)"
          by (intro simulate_loop_stop) simp
        with rec have "net' = n1" by simp
        moreover from r False have "n1 = net" by (auto dest: simulate_round_unchanged)
        ultimately show ?thesis using r False by simp
      qed
    qed
  qed
qed

lemma fixed_point_stable:
  assumes "simulate_round (+) net = Inr (net, False)"
  shows "stable net"
  unfolding stable_def
proof (intro allI impI)
  fix k r nb w n d dc h
  assume a: "map_of (routers net) k = Some r \<and> map_of (neighbors r) nb = Some w
        \<and> map_of (routers net) nb = Some n \<and> map_of (routing_table n) d = Some (dc, h)"
  then have r: "map_of (routers net) k = Some r" and w: "map_of (neighbors r) nb = Some w"
    and n: "map_of (routers net) nb = Some n"
    and e: "map_of (routing_table n) d = Some (dc, h)"
    by simp_all
  from assms have "simulate_routers (+) (map fst (routers net)) net False = Inr (net, False)"
    by (simp add: simulate_round_def)
  from simulate_routers_no_change[OF this] map_of_keys[OF r] r map_of_keys[OF w]
  have "simulate_pair (+) k nb net = Inr (net, False)" by fastforce
  from simulate_pair_InrD[OF this] r w n
  have "snd (relax_loop (+) nb w (routing_table n) (routing_table r, False)) = False"
    by auto
  with map_of_SomeD[OF e] have "\<not> improves (routing_table r) d (w + dc)"
    by (auto simp: relax_loop_flag)
  then show "\<exists>c h'. map_of (routing_table r) d = Some (c, h') \<and> c \<le> w + dc"
    by (auto simp: improves_def split: option.splits)
qed

lemma stable_walk_bound:
  assumes "stable net" and "consistent net"
  shows "map_of (routers net) k = Some r \<Longrightarrow> walk_cost (link_cost net) (k # q) = Some c \<Longrightarrow>
         q \<noteq> [] \<Longrightarrow> \<exists>c' h'. map_of (routing_table r) (last q) = Some (c', h') \<and> c' \<le> c"
proof (induction q arbitrary: k r c)
  case Nil
  then show ?case by simp
next
  case (Cons v p)
  from Cons.prems(2) obtain a b where a: "link_cost net k v = Some a"
    and b: "walk_cost (link_cost net) (v # p) = Some b" and c: "c = a + b"
    by (auto split: option.splits)
  from a Cons.prems(1) have nb: "map_of (neighbors r) v = Some a"
    by (simp add: link_cost_def)
  show ?case
  proof (cases p)
    case Nil
    with b c have "c = a" by simp
    with consistentD(5)[OF assms(2) Cons.prems(1) nb] Nil show ?thesis by simp
  next
    case (Cons v2 p')
    with b have "link_cost net v v2 \<noteq> None" by (auto split: option.splits)
    then obtain n where n: "map_of (routers net) v = Some n"
      by (auto simp: link_cost_def split: option.splits)
    from Cons have ne: "p \<noteq> []" by simp
    from Cons.IH[OF n b ne] obtain c1 h1 where
      e: "map_of (routing_table n) (last p) = Some (c1, h1)" and le: "c1 \<le> b" by blast
    from assms(1) Cons.prems(1) nb n e obtain c2 h2 where
      "map_of (routing_table r) (last p) = Some (c2, h2)" "c2 \<le> a + c1"
      unfolding stable_def by blast
    with le c ne show ?thesis by auto
  qed
qed

section \<open>Networks before the first round\<close>

lemma initial_Network_init: "initial Network_init"
  by (simp add: initial_def Network_init_def)

lemma initial_router_Router_init: "initial_router n (Router_init n)"
  by (simp add: initial_router_def Router_init_def)

lemma initial_update:
  assumes "initial net" and "initial_router k r"
  shows "initial (net\<lparr>routers := AList.update k r (routers net)\<rparr>)"
  using assms by (auto simp: initial_def update_conv' split: if_splits)

lemma initial_add_router: "initial net \<Longrightarrow> initial (add_router n net)"
  unfolding add_router_def by (rule initial_update[OF _ initial_router_Router_init])

lemma initial_router_add_neighbor:
  assumes "initial_router k r" and "0 \<le> c"
  shows "initial_router k (add_neighbor r v c)"
proof -
  from assms(1) have nm: "name r = k"
    and dist: "distinct (map fst (routing_table r))"
    and nonneg: "\<And>x w. map_of (neighbors r) x = Some w \<Longrightarrow> 0 \<le> w"
    and entries: "\<And>d x h. map_of (routing_table r) d = Some (x, h) \<Longrightarrow>
            (d = k \<and> x = 0 \<and> h = k) \<or> (h = d \<and> map_of (neighbors r) d = Some x)"
    and direct: "\<And>x w. map_of (neighbors r) x = Some w \<Longrightarrow>
            \<exists>y h. map_of (routing_table r) x = Some (y, h) \<and> y \<le> w"
    unfolding initial_router_def by blast+
  let ?r = "add_neighbor r v c"
  have nbs: "map_of (neighbors ?r) = (map_of (neighbors r))(v \<mapsto> c)"
    by (simp add: add_neighbor_def update_conv')
  have tab: "map_of (routing_table ?r) = ((map_of (routing_table r))(v \<mapsto> (c, v)))(k \<mapsto> (0, k))"
    by (simp add: add_neighbor_def update_conv' nm)
  have 1: "name ?r = k" by (simp add: add_neighbor_def nm)
  have 2: "distinct (map fst (routing_table ?r))"
    by (simp add: add_neighbor_def distinct_update dist)
  have 3: "0 \<le> w" if "map_of (neighbors ?r) x = Some w" for x w
    using that nonneg assms(2) by (auto simp: nbs split: if_splits)
  have 4: "map_of (routing_table ?r) k = Some (0, k)"
    by (simp add: tab)
  have 5: "(d = k \<and> x = 0 \<and> h = k) \<or> (h = d \<and> map_of (neighbors ?r) d = Some x)"
    if "map_of (routing_table ?r) d = Some (x, h)" for d x h
    using that entries by (auto simp: nbs tab split: if_splits)
  have 6: "\<exists>y h. map_of (routing_table ?r) x = Some (y, h) \<and> y \<le> w"
    if "map_of (neighbors ?r) x = Some w" for x w
  proof (cases "x = k")
    case True
    with 3[OF that] show ?thesis by (simp add: tab)
  next
    case False
    show ?thesis
    proof (cases "x = v")
      case True
      with that have "w = c" by (simp add: nbs)
      then show ?thesis using False True by (simp add: tab)
    next
      case xv: False
      with that have "map_of (neighbors r) x = Some w" by (simp add: nbs)
      from direct[OF this] False xv show ?thesis by (simp add: tab)
    qed
  qed
  show ?thesis
    unfolding initial_router_def using 1 2 3 4 5 6 by blast
qed

lemma initial_add_neighbor:
  assumes "initial net" and "map_of (routers net) u = Some ru" and "0 \<le> c"
  shows "initial (net\<lparr>routers := AList.update u (add_neighbor ru v c) (routers net)\<rparr>)"
proof -
  from assms(1,2) have "initial_router u ru" by (simp add: initial_def)
  from initial_update[OF assms(1) initial_router_add_neighbor[OF this assms(3)]]
  show ?thesis .
qed

lemma initial_add_link:
  assumes "initial net" and "0 \<le> c"
    and "add_link u v c net = Inr net' \<or> add_link u v c net = Inl (e, net')"
  shows "initial net'"
proof (cases "map_of (routers net) u")
  case None
  with assms(3) have "net' = net" by (auto simp: add_link_def)
  with assms(1) show ?thesis by simp
next
  case (Some ru)
  let ?net1 = "net\<lparr>routers := AList.update u (add_neighbor ru v c) (routers net)\<rparr>"
  have i1: "initial ?net1" by (rule initial_add_neighbor[OF assms(1) Some assms(2)])
  show ?thesis
  proof (cases "map_of (routers ?net1) v")
    case None
    with Some assms(3) have "net' = ?net1" by (auto simp: add_link_def Let_def)
    with i1 show ?thesis by simp
  next
    case rv: (Some rv)
    with Some assms(3)
    have "net' = ?net1\<lparr>routers := AList.update v (add_neighbor rv u c) (routers ?net1)\<rparr>"
      by (auto simp: add_link_def Let_def)
    with initial_add_neighbor[OF i1 rv assms(2)] show ?thesis by simp
  qed
qed

lemma built_initial: "built net \<Longrightarrow> initial net"
proof (induction rule: built.induct)
  case built_init
  show ?case by (rule initial_Network_init)
next
  case (built_router net n)
  then show ?case by (simp add: initial_add_router)
next
  case (built_link net c u v net')
  then show ?case using initial_add_link by blast
next
  case (built_link_raised net c u v e net')
  then show ?case using initial_add_link by blast
qed

lemma built_add_routers:
  "built net \<Longrightarrow> built (foldl (\<lambda>net n. add_router n net) net ns)"
  by (induction ns arbitrary: net) (auto intro: built_router)

lemma built_add_links:
  "built net \<Longrightarrow> \<forall>(a, b, c) \<in> set ls. 0 \<le> c \<Longrightarrow> add_links ls net = Inr net' \<Longrightarrow> built net'"
proof (induction ls arbitrary: net)
  case Nil
  then show ?case by simp
next
  case (Cons l ls)
  obtain a b c where l: "l = (a, b, c)" by (cases l)
  from Cons.prems(3) obtain n1 where n1: "add_link a b c net = Inr n1"
    and rest: "add_links ls n1 = Inr net'"
    by (auto simp: l split: sum.splits)
  from Cons.prems(2) have c: "0 \<le> c" and cs: "\<forall>(a, b, c) \<in> set ls. 0 \<le> c"
    by (auto simp: l)
  from Cons.IH[OF built_link[OF Cons.prems(1) c n1] cs rest] show ?case .
qed

lemma built_start_network: "built start_network"
proof -
  have m: "main_network = Inr start_network"
    by code_simp
  have "built (foldl (\<lambda>net n. add_router n net) Network_init main_routers)"
    by (rule built_add_routers[OF built_init])
  moreover have "\<forall>(a, b, c) \<in> set main_links. 0 \<le> c"
    by (simp add: main_links_def)
  ultimately show ?thesis
    using m unfolding main_network_def by (rule built_add_links)
qed

section \<open>Runs with exact sums\<close>

lemma relax_loop_exact:
  "exact_relax padd w tbl \<Longrightarrow> relax_loop padd nb w tbl st = relax_loop (+) nb w tbl st"
proof (induction tbl arbitrary: st)
  case Nil
  show ?case by (cases st) simp
next
  case (Cons e tbl)
  obtain dest dc hop where e: "e = (dest, dc, hop)" by (cases e) auto
  obtain t m where st: "st = (t, m)" by (cases st)
  from Cons.prems have h: "padd w dc = w + dc" and r: "exact_relax padd w tbl"
    by (auto simp: exact_relax_def e)
  show ?case
    using Cons.IH[OF r] by (simp add: e st h Let_def)
qed

lemma simulate_pair_exact:
  assumes "exact_pair padd rk nb net"
  shows "simulate_pair padd rk nb net = simulate_pair (+) rk nb net"
  using assms
  by (auto simp: exact_pair_def simulate_pair_def update_routing_table_def relax_loop_exact
      split: option.splits)

lemma simulate_neighbors_exact:
  "exact_neighbors padd rk nbs net \<Longrightarrow>
   simulate_neighbors padd rk nbs net ch = simulate_neighbors (+) rk nbs net ch"
proof (induction nbs arbitrary: net ch)
  case Nil
  show ?case by simp
next
  case (Cons nb nbs)
  from Cons.prems have p: "exact_pair padd rk nb net" by simp
  note eq = simulate_pair_exact[OF p]
  show ?case
  proof (cases "simulate_pair padd rk nb net")
    case (Inl e)
    with eq have "simulate_pair (+) rk nb net = Inl e" by simp
    with Inl show ?thesis by simp
  next
    case (Inr x)
    obtain n1 m where x: "x = (n1, m)" by (cases x)
    from Cons.prems Inr x have "exact_neighbors padd rk nbs n1" by simp
    moreover from Inr eq have "simulate_pair (+) rk nb net = Inr x" by simp
    ultimately show ?thesis using Cons.IH[of n1 "ch \<or> m"] Inr x by simp
  qed
qed

lemma simulate_routers_exact:
  "exact_routers padd rks net ch \<Longrightarrow>
   simulate_routers padd rks net ch = simulate_routers (+) rks net ch"
proof (induction rks arbitrary: net ch)
  case Nil
  show ?case by simp
next
  case (Cons rk rks)
  show ?case
  proof (cases "map_of (routers net) rk")
    case None
    then show ?thesis by simp
  next
    case (Some r)
    with Cons.prems have n: "exact_neighbors padd rk (map fst (neighbors r)) net" by simp
    note eq = simulate_neighbors_exact[OF n, of ch]
    show ?thesis
    proof (cases "simulate_neighbors padd rk (map fst (neighbors r)) net ch")
      case (Inl e)
      with eq have "simulate_neighbors (+) rk (map fst (neighbors r)) net ch = Inl e" by simp
      with Inl Some show ?thesis by simp
    next
      case (Inr x)
      obtain n1 c1 where x: "x = (n1, c1)" by (cases x)
      from Cons.prems Some Inr x have "exact_routers padd rks n1 c1" by simp
      moreover from Inr eq
      have "simulate_neighbors (+) rk (map fst (neighbors r)) net ch = Inr x" by simp
      ultimately show ?thesis using Cons.IH[of n1 c1] Inr x Some by simp
    qed
  qed
qed

lemma simulate_round_exact:
  "exact_round padd net \<Longrightarrow> simulate_round padd net = simulate_round (+) net"
  unfolding exact_round_def simulate_round_def by (rule simulate_routers_exact)

lemma simulate_loop_exact:
  "exact_rounds padd (nat (m - i)) net \<Longrightarrow>
   simulate_loop padd m i conv net out = simulate_loop (+) m i conv net out"
proof (induction padd m i conv net out rule: simulate_loop.induct)
  case (1 padd m i conv net out)
  show ?case
  proof (cases "\<not> conv \<and> i < m")
    case False
    then show ?thesis by (simp add: simulate_loop_stop)
  next
    case True
    then have nc: "\<not> conv" and lt: "i < m" by simp_all
    from lt have n: "nat (m - i) = Suc (nat (m - (i + 1)))" by simp
    from "1.prems" n have er: "exact_round padd net"
      and rest: "case simulate_round padd net of
                   Inl e \<Rightarrow> True
                 | Inr (net', changes) \<Rightarrow>
                     if changes then exact_rounds padd (nat (m - (i + 1))) net' else True"
      by simp_all
    note eq = simulate_round_exact[OF er]
    show ?thesis
    proof (cases "simulate_round padd net")
      case (Inl e)
      with eq have "simulate_round (+) net = Inl e" by simp
      with Inl True show ?thesis
        by (subst simulate_loop.simps, subst (2) simulate_loop.simps) simp
    next
      case (Inr x)
      obtain n1 ch where x: "x = (n1, ch)" by (cases x)
      from Inr x have r: "simulate_round padd net = Inr (n1, ch)" by simp
      with eq have r': "simulate_round (+) net = Inr (n1, ch)" by simp
      note steps = simulate_loop_step[OF nc lt r, of out] simulate_loop_step[OF nc lt r', of out]
      show ?thesis
      proof (cases ch)
        case changed: True
        with rest r have "exact_rounds padd (nat (m - (i + 1))) n1" by simp
        from "1.IH"[OF True r refl this] steps show ?thesis by simp
      next
        case unchanged: False
        then show ?thesis using steps by (simp add: simulate_loop_stop)
      qed
    qed
  qed
qed

lemma simulate_exact:
  "exact_rounds padd (nat m) net \<Longrightarrow> simulate padd m net = simulate (+) m net"
  using simulate_loop_exact[of padd m 0 net False "[Start_banner]"]
  by (cases "visualize_network net") (simp_all add: simulate_def)

lemma exact_neighbors_plus: "exact_neighbors (+) rk nbs net"
proof (induction nbs arbitrary: net)
  case Nil
  show ?case by simp
next
  case (Cons nb nbs)
  then show ?case
    by (auto simp: exact_pair_def exact_relax_def split: option.splits sum.splits)
qed

lemma exact_routers_plus: "exact_routers (+) rks net ch"
proof (induction rks arbitrary: net ch)
  case Nil
  show ?case by simp
next
  case (Cons rk rks)
  then show ?case
    by (auto simp: exact_neighbors_plus split: option.splits sum.splits)
qed

lemma exact_rounds_plus: "exact_rounds (+) n net"
proof (induction n arbitrary: net)
  case 0
  show ?case by simp
next
  case (Suc n)
  then show ?case
    by (auto simp: exact_round_def exact_routers_plus split: sum.splits)
qed

section \<open>Converged tables\<close>

lemma is_walk_split:
  assumes "is_walk lc k d p c" and "d \<noteq> k"
  shows "\<exists>q. p = k # q \<and> q \<noteq> [] \<and> last q = d"
proof (cases p)
  case Nil
  with assms(1) show ?thesis by (simp add: is_walk_def)
next
  case (Cons x q)
  with assms show ?thesis by (cases q) (auto simp: is_walk_def)
qed

lemma simulate_loop_consistent:
  assumes "simulate_loop (+) m i conv net out = Inr (it, conv', net', out')" and "consistent net"
  shows "consistent net'"
  by (rule simulate_loop_invariant[where P = consistent, OF assms])
     (rule simulate_round_consistent)

lemma simulate_loop_evolves:
  assumes "simulate_loop padd m i conv net out = Inr (it, conv', net', out')"
  shows "evolves net net'"
  by (rule simulate_loop_invariant[where P = "evolves net", OF assms evolves_refl])
     (blast intro: evolves_trans simulate_round_evolves)

lemma self_route_kept:
  assumes "built net"
    and "simulate_loop (+) m i conv net out = Inr (it, conv', net', out')"
    and "map_of (routers net') k = Some r" and "neighbors r \<noteq> []"
  shows "map_of (routing_table r) k = Some (0, k)"
proof -
  have "consistent net'"
    by (rule simulate_loop_consistent[OF assms(2) initial_consistent[OF built_initial[OF assms(1)]]])
  from consistentD(3)[OF this assms(3,4)] show ?thesis .
qed

lemma converged_route_shortest:
  assumes c: "consistent net" and st: "stable net"
    and r: "map_of (routers net) k = Some r" and nb: "neighbors r \<noteq> []"
    and walk: "is_walk (link_cost net) k d p c"
  shows "\<exists>cost hop q.
           map_of (routing_table r) d = Some (cost, hop)
         \<and> shortest_walk (link_cost net) k d q cost
         \<and> ((d = k \<and> hop = k \<and> q = [k]) \<or> (d \<noteq> k \<and> (\<exists>q'. q = k # hop # q')))"
proof (cases "d = k")
  case True
  have nonneg: "\<forall>u v c. link_cost net u v = Some c \<longrightarrow> 0 \<le> c"
    using consistent_link_nonneg[OF c] by blast
  have self: "map_of (routing_table r) k = Some (0, k)"
    by (rule consistentD(3)[OF c r nb])
  have "shortest_walk (link_cost net) k k [k] 0"
    unfolding shortest_walk_def is_walk_def using walk_cost_nonneg[OF nonneg] by auto
  with self True show ?thesis by blast
next
  case False
  have bound: "\<exists>x h. map_of (routing_table r) d = Some (x, h) \<and> x \<le> c2"
    if w2: "is_walk (link_cost net) k d p2 c2" for p2 c2
  proof -
    from is_walk_split[OF w2 False] obtain q where q: "p2 = k # q" "q \<noteq> []" "last q = d"
      by blast
    from w2 q have "walk_cost (link_cost net) (k # q) = Some c2"
      by (simp add: is_walk_def)
    from stable_walk_bound[OF st c r this q(2)] q(3) show ?thesis by simp
  qed
  from bound[OF walk] obtain cost hop where e: "map_of (routing_table r) d = Some (cost, hop)"
    by blast
  from consistentD(4)[OF c r e] False obtain q' where
    q': "walk_cost (link_cost net) (k # hop # q') = Some cost" "last (hop # q') = d"
    by blast
  have w: "is_walk (link_cost net) k d (k # hop # q') cost"
    using q' by (simp add: is_walk_def)
  have "cost \<le> c2" if "is_walk (link_cost net) k d p2 c2" for p2 c2
    using bound[OF that] e by simp
  with w have "shortest_walk (link_cost net) k d (k # hop # q') cost"
    unfolding shortest_walk_def by blast
  with e False show ?thesis by blast
qed

lemma simulate_converged_loop:
  assumes "simulate padd m net = Inr (value, net', out)" and "Max_iterations_warning \<notin> set out"
  shows "\<exists>it out'. simulate_loop padd m 0 False net [Start_banner] = Inr (it, True, net', out')"
  using assms
  by (auto simp: simulate_def split: sum.splits if_splits)

lemma built_big_link_network: "built big_link_network"
proof -
  define net0 where "net0 = foldl (\<lambda>net n. add_router n net) Network_init [''A'', ''B'']"
  have b0: "built net0"
    unfolding net0_def by (rule built_add_routers[OF built_init])
  have m: "add_links [(''A'', ''B'', 2 ^ 53 + 1)] net0 = Inr big_link_network"
    unfolding net0_def by code_simp
  have "\<forall>(a, b, c) \<in> set [(''A'', ''B'', (2::real) ^ 53 + 1)]. 0 \<le> c"
    by simp
  from built_add_links[OF b0 this m] show ?thesis .
qed

lemma built_chain_network: "built chain_network"
proof -
  define net0 where
    "net0 = foldl (\<lambda>net n. add_router n net) Network_init [''A'', ''B'', ''C'', ''D'']"
  have b0: "built net0"
    unfolding net0_def by (rule built_add_routers[OF built_init])
  have m: "add_links [(''A'', ''B'', 1), (''B'', ''C'', 1), (''C'', ''D'', 1)] net0
             = Inr chain_network"
    unfolding net0_def by code_simp
  have "\<forall>(a, b, c) \<in> set [(''A'', ''B'', 1::real), (''B'', ''C'', 1), (''C'', ''D'', 1)]. 0 \<le> c"
    by simp
  from built_add_links[OF b0 this m] show ?thesis .
qed

lemma big_link_shortest:
  "shortest_walk (link_cost big_link_network) ''A'' ''B'' [''A'', ''B''] (2 ^ 53 + 1)"
  unfolding shortest_walk_def
proof (intro conjI allI impI)
  show "is_walk (link_cost big_link_network) ''A'' ''B'' [''A'', ''B''] (2 ^ 53 + 1)"
    by code_simp
next
  fix p' c'
  assume w: "is_walk (link_cost big_link_network) ''A'' ''B'' p' c'"
  have ne: "''B'' \<noteq> ''A''" by simp
  from is_walk_split[OF w ne] obtain q where q: "p' = ''A'' # q" "q \<noteq> []" by blast
  then obtain v q' where v: "q = v # q'" by (cases q) auto
  from w q v obtain a b where a: "link_cost big_link_network ''A'' v = Some a"
    and b: "walk_cost (link_cost big_link_network) (v # q') = Some b" and c': "c' = a + b"
    by (auto simp: is_walk_def split: option.splits)
  have nbs: "map_of (routers big_link_network) ''A'' = Some big_link_router_A"
    by code_simp
  from a nbs have "a = 2 ^ 53 + 1"
    by (auto simp: link_cost_def big_link_router_A_def split: if_splits)
  moreover have "\<forall>u v c. link_cost big_link_network u v = Some c \<longrightarrow> 0 \<le> c"
    using consistent_link_nonneg[OF initial_consistent[OF built_initial[OF built_big_link_network]]]
    by blast
  from walk_cost_nonneg[OF this b] have "0 \<le> b" .
  ultimately show "2 ^ 53 + 1 \<le> c'" using c' by simp
qed

text \<open>
  C1, as stated, fails on three networks the code accepts. After a router has been
  added a second time the other routers still record the link to it and it does not: in
  the first network below B records the link B-A of cost 1, the simulation converges, and
  A reaches B at cost 6. A router without a neighbour converges with an empty table,
  which does not hold the route of cost 0 to itself. With a link of cost \<open>2 ^ 53 + 1\<close>
  between A and B and an addition that rounds as Python does, the first round replaces
  the cost of the route from A to B by the rounded sum \<^verbatim>\<open>(2**53 + 1) + 0.0\<close>, and the
  simulation converges in the second round with the cost \<open>2 ^ 53\<close> for this route,
  below the cost \<open>2 ^ 53 + 1\<close> of the shortest walk.
\<close>

theorem converged_tables_counterexample:
  "map_sum id (\<lambda>(value, net, out). (Max_iterations_warning \<in> set out, route net ''A'' ''B''))
     (simulate (+) 100 readded_network) = Inr (False, Some (6, ''C''))
   \<and> is_walk (union_link_cost readded_network) ''A'' ''B'' [''A'', ''B''] 1
   \<and> map_sum id (\<lambda>(value, net, out). (Max_iterations_warning \<in> set out, route net ''A'' ''A''))
       (simulate (+) 100 lone_router) = Inr (False, None)
   \<and> is_walk (link_cost lone_router) ''A'' ''A'' [''A''] 0
   \<and> map_sum id (\<lambda>(value, net, out). (Max_iterations_warning \<in> set out, route net ''A'' ''B''))
       (simulate round_add 100 big_link_network) = Inr (False, Some (2 ^ 53, ''B''))
   \<and> shortest_walk (link_cost big_link_network) ''A'' ''B'' [''A'', ''B''] (2 ^ 53 + 1)
   \<and> round_add (2 ^ 53 + 1) (2 ^ 53 + 1) = 2 ^ 54 + 2
   \<and> round_add (2 ^ 53 + 1) (2 ^ 53) = 2 ^ 54"
proof -
  have "map_sum id (\<lambda>(value, net, out). (Max_iterations_warning \<in> set out, route net ''A'' ''B''))
     (simulate (+) 100 readded_network) = Inr (False, Some (6, ''C''))"
    by code_simp
  moreover have "is_walk (union_link_cost readded_network) ''A'' ''B'' [''A'', ''B''] 1"
    by code_simp
  moreover have
    "map_sum id (\<lambda>(value, net, out). (Max_iterations_warning \<in> set out, route net ''A'' ''A''))
       (simulate (+) 100 lone_router) = Inr (False, None)"
    by code_simp
  moreover have "is_walk (link_cost lone_router) ''A'' ''A'' [''A''] 0"
    by code_simp
  moreover have
    "map_sum id (\<lambda>(value, net, out). (Max_iterations_warning \<in> set out, route net ''A'' ''B''))
       (simulate round_add 100 big_link_network) = Inr (False, Some (2 ^ 53, ''B''))"
    by code_simp
  moreover have "round_add (2 ^ 53 + 1) (2 ^ 53 + 1) = 2 ^ 54 + 2"
    by code_simp
  moreover have "round_add (2 ^ 53 + 1) (2 ^ 53) = 2 ^ 54"
    by code_simp
  ultimately show ?thesis using big_link_shortest by blast
qed

text \<open>
  C1, amended. Take a network built by \<^verbatim>\<open>add_router\<close> and \<^verbatim>\<open>add_link\<close> with costs
  that are not negative, and a call of \<^verbatim>\<open>simulate\<close> on it that returns without the
  warning, that is, converged, and in which every sum that the rounds compute is exact
  (as it is in Python for integer costs whose sums stay below \<open>2 ^ 53\<close>). The links
  are the same after the run, and for every router that records at least one neighbour
  and every destination that a walk along the recorded links reaches from it, the table
  of the router holds a route whose cost is the cost of a shortest such walk and whose
  next hop is the second router of a shortest walk (the router itself for the route to
  itself).
\<close>

theorem converged_tables_shortest:
  assumes "built net"
    and "exact_rounds padd (nat max_iterations) net"
    and "simulate padd max_iterations net = Inr (value, net', out)"
    and "Max_iterations_warning \<notin> set out"
    and "map_of (routers net') k = Some r" and "neighbors r \<noteq> []"
    and "is_walk (link_cost net) k d p c"
  shows "link_cost net' = link_cost net
       \<and> (\<exists>cost hop q.
             map_of (routing_table r) d = Some (cost, hop)
           \<and> shortest_walk (link_cost net) k d q cost
           \<and> ((d = k \<and> hop = k \<and> q = [k]) \<or> (d \<noteq> k \<and> (\<exists>q'. q = k # hop # q'))))"
proof -
  from simulate_exact[OF assms(2)] assms(3)
  have "simulate (+) max_iterations net = Inr (value, net', out)" by simp
  from simulate_converged_loop[OF this assms(4)] obtain iteration out' where
    run: "simulate_loop (+) max_iterations 0 False net [Start_banner]
            = Inr (iteration, True, net', out')"
    by blast
  have c': "consistent net'"
    by (rule simulate_loop_consistent[OF run initial_consistent[OF built_initial[OF assms(1)]]])
  have lc: "link_cost net' = link_cost net"
    by (rule link_cost_evolves[OF simulate_loop_evolves[OF run]])
  have "simulate_round (+) net' = Inr (net', False)"
    by (rule simulate_loop_converged_fixed[OF run]) simp
  then have st: "stable net'" by (rule fixed_point_stable)
  from assms(7) have "is_walk (link_cost net') k d p c" by (simp add: lc)
  from converged_route_shortest[OF c' st assms(5,6) this] lc show ?thesis by simp
qed

theorem converged_tables_shortest_witness:
  "(built start_network
    \<and> exact_rounds (+) (nat 100) start_network
    \<and> (\<exists>out. simulate (+) 100 start_network = Inr ((), converged_network, out)
             \<and> Max_iterations_warning \<notin> set out)
    \<and> map_of (routers converged_network) ''A'' = Some router_A_converged
    \<and> neighbors router_A_converged \<noteq> []
    \<and> is_walk (link_cost start_network) ''A'' ''E'' [''A'', ''F'', ''E''] 5
    \<and> (\<exists>q'. shortest_walk (link_cost start_network) ''A'' ''E'' (''A'' # ''B'' # q') 4))
   \<and> (built chain_network
    \<and> exact_rounds round_add (nat 3) chain_network
    \<and> (\<exists>net' out. simulate round_add 3 chain_network = Inr ((), net', out)
             \<and> Max_iterations_warning \<notin> set out
             \<and> map_of (routers net') ''A'' = Some chain_router_A_converged)
    \<and> neighbors chain_router_A_converged \<noteq> []
    \<and> is_walk (link_cost chain_network) ''A'' ''D'' [''A'', ''B'', ''C'', ''D''] 3
    \<and> (\<exists>q'. shortest_walk (link_cost chain_network) ''A'' ''D'' (''A'' # ''B'' # q') 3))"
proof -
  have "map_sum id (\<lambda>(value, net, out). (net, Max_iterations_warning \<in> set out))
          (simulate (+) 100 start_network) = Inr (converged_network, False)"
    by code_simp
  then obtain out where
    run: "simulate (+) 100 start_network = Inr ((), converged_network, out)"
    and nw: "Max_iterations_warning \<notin> set out"
    by (cases "simulate (+) 100 start_network") auto
  have ex: "exact_rounds (+) (nat 100) start_network"
    by (rule exact_rounds_plus)
  have r: "map_of (routers converged_network) ''A'' = Some router_A_converged"
    by code_simp
  have nb: "neighbors router_A_converged \<noteq> []"
    by (simp add: router_A_converged_def)
  have w: "is_walk (link_cost start_network) ''A'' ''E'' [''A'', ''F'', ''E''] 5"
    by code_simp
  have e: "map_of (routing_table router_A_converged) ''E'' = Some (4, ''B'')"
    by (simp add: router_A_converged_def)
  from converged_tables_shortest[OF built_start_network ex run nw r nb w] e
  have s1: "\<exists>q'. shortest_walk (link_cost start_network) ''A'' ''E'' (''A'' # ''B'' # q') 4"
    by auto
  have "map_sum id (\<lambda>(value, net, out).
            (map_of (routers net) ''A'', Max_iterations_warning \<in> set out))
          (simulate round_add 3 chain_network) = Inr (Some chain_router_A_converged, False)"
    by code_simp
  then obtain net2 out2 where
    run2: "simulate round_add 3 chain_network = Inr ((), net2, out2)"
    and nw2: "Max_iterations_warning \<notin> set out2"
    and r2: "map_of (routers net2) ''A'' = Some chain_router_A_converged"
    by (cases "simulate round_add 3 chain_network") auto
  have ex2: "exact_rounds round_add (nat 3) chain_network"
    by code_simp
  have nb2: "neighbors chain_router_A_converged \<noteq> []"
    by (simp add: chain_router_A_converged_def)
  have w2: "is_walk (link_cost chain_network) ''A'' ''D'' [''A'', ''B'', ''C'', ''D''] 3"
    by code_simp
  have e2: "map_of (routing_table chain_router_A_converged) ''D'' = Some (3, ''B'')"
    by (simp add: chain_router_A_converged_def)
  from converged_tables_shortest[OF built_chain_network ex2 run2 nw2 r2 nb2 w2] e2
  have s2: "\<exists>q'. shortest_walk (link_cost chain_network) ''A'' ''D'' (''A'' # ''B'' # q') 3"
    by auto
  from built_start_network ex run nw r nb w s1 built_chain_network ex2 run2 nw2 r2 nb2 w2 s2
  show ?thesis by blast
qed

section \<open>The route of a router to itself\<close>

text \<open>
  C4. \<^verbatim>\<open>add_router\<close> creates the router with an empty routing table: after the
  creation of router A its table has no entry for A. (The entry is written by
  \<^verbatim>\<open>add_neighbor\<close> only; from then on a run with exact sums on a network with
  costs that are not negative keeps it, see \<open>self_route_kept\<close>.)
\<close>

theorem add_router_no_self_route:
  "routers (add_router ''A'' Network_init) =
     [(''A'', \<lparr>name = ''A'', neighbors = [], routing_table = []\<rparr>)]
   \<and> route (add_router ''A'' Network_init) ''A'' ''A'' = None
   \<and> route (add_router ''A'' Network_init) ''A'' ''A'' \<noteq> Some (0, ''A'')"
  by (simp add: add_router_def Network_init_def Router_init_def route_def)

end
